theory Spec2Isabelle
  imports Main "HOL-Library.Sublist" "HOL-Library.Multiset"
begin

section \<open>Strings and errors\<close>

text \<open>
  Go strings are byte sequences; \<open>string\<close> (a list of 8-bit characters) is the same
  thing. \<open>strings.Contains\<close> is a search for a contiguous run of bytes.
\<close>

primrec Contains :: "string \<Rightarrow> string \<Rightarrow> bool" where
  "Contains [] sub = (sub = [])"
| "Contains (c # cs) sub = (prefix sub (c # cs) \<or> Contains cs sub)"

text \<open>
  A Go \<open>error\<close> is either one of the two sentinel values a context reports
  (\<open>context.Canceled\<close>, \<open>context.DeadlineExceeded\<close>) or any other error, of which
  the retry loop only reads the text (\<open>err.Error()\<close>).
\<close>

datatype ctx_error = Canceled | DeadlineExceeded

datatype go_error = Failure string | ContextErr ctx_error

fun Error :: "go_error \<Rightarrow> string" where
  "Error (Failure msg) = msg"
| "Error (ContextErr Canceled) = ''context canceled''"
| "Error (ContextErr DeadlineExceeded) = ''context deadline exceeded''"

section \<open>The provider and its backend\<close>

record GenerateOptions =
  opt_Model :: string
  opt_System :: string

record GenerateResponse =
  resp_Content :: string
  resp_Model :: string
  resp_Done :: bool

text \<open>
  A prompt is built with \<open>fmt.Sprintf\<close> from a fixed template and two arguments. The
  template text plays no role below; the arguments are kept.
\<close>

datatype prompt =
    AnalysisPrompt string string
  | PriorityPrompt string string
  | RawPrompt string

text \<open>
  What the program does to the outside, in order: it takes and frees the slot of
  \<open>ollamaSemaphore\<close>, sleeps (whole seconds), and calls \<open>doGenerate\<close> with a model
  and a prompt.
\<close>

datatype event =
    Acquired
  | Released
  | Slept nat
  | Attempt string prompt

text \<open>
  The state the calls thread through: the provider's \<open>baseURL\<close> and
  \<open>defaultModel\<close>, the number of calls of \<open>doGenerate\<close> made so far, and the
  events so far.
\<close>

record world =
  baseURL :: string
  defaultModel :: string
  calls :: nat
  trace :: "event list"

text \<open>
  The backend is outside the program. Its behaviour in one run is given by what the
  n-th call of \<open>doGenerate\<close> returns and what \<open>ctx.Err()\<close> reports when the loop
  reads it after that call.
\<close>

record reply =
  outcome :: "go_error + GenerateResponse"
  ctx_Err :: "ctx_error option"

type_synonym backend = "nat \<Rightarrow> reply"

definition SetModel :: "string \<Rightarrow> world \<Rightarrow> world" where
  "SetModel model w = (if model \<noteq> [] then w\<lparr>defaultModel := model\<rparr> else w)"

definition GetCurrentModel :: "world \<Rightarrow> string" where
  "GetCurrentModel w = defaultModel w"

definition emit :: "event \<Rightarrow> world \<Rightarrow> world" where
  "emit e w = w\<lparr>trace := trace w @ [e]\<rparr>"

definition acquireOllama :: "world \<Rightarrow> world" where
  "acquireOllama w = emit Acquired w"

definition releaseOllama :: "world \<Rightarrow> world" where
  "releaseOllama w = emit Released w"

definition Sleep :: "nat \<Rightarrow> world \<Rightarrow> world" where
  "Sleep secs w = emit (Slept secs) w"

definition doGenerate ::
  "backend \<Rightarrow> prompt \<Rightarrow> string \<Rightarrow> world \<Rightarrow> (go_error + GenerateResponse) \<times> world" where
  "doGenerate be p model w =
     (outcome (be (calls w)), emit (Attempt model p) (w\<lparr>calls := Suc (calls w)\<rparr>))"

section \<open>The retry loop\<close>

text \<open>
  \<open>isCrash\<close> is the test of the loop's first branch after a failed attempt.
\<close>

definition isCrash :: "go_error \<Rightarrow> bool" where
  "isCrash err = (Contains (Error err) ''terminated'' \<or> Contains (Error err) ''500'')"

text \<open>
  The loop of \<open>generateWithRetry\<close>, from the attempt number \<open>attempt\<close> on, with the
  value of \<open>lastErr\<close> so far. The result is Go's pair \<open>(resp, err)\<close>.
\<close>

function retryLoop ::
  "backend \<Rightarrow> prompt \<Rightarrow> string \<Rightarrow> nat \<Rightarrow> nat \<Rightarrow> go_error option \<Rightarrow> world
     \<Rightarrow> (GenerateResponse option \<times> go_error option) \<times> world" where
  "retryLoop be p model maxRetries attempt lastErr w =
     (if attempt \<le> maxRetries then
        (let w1 = (if attempt > 1 then Sleep (attempt * 2) w else w);
             ctx = ctx_Err (be (calls w1));
             (r, w2) = doGenerate be p model w1
         in case r of
              Inr resp \<Rightarrow> ((Some resp, None), w2)
            | Inl err \<Rightarrow>
                if isCrash err
                then retryLoop be p model maxRetries (Suc attempt) (Some err) (Sleep 5 w2)
                else (case ctx of
                        Some ce \<Rightarrow> ((None, Some (ContextErr ce)), w2)
                      | None \<Rightarrow> retryLoop be p model maxRetries (Suc attempt) (Some err) w2))
      else ((None, lastErr), w))"
  by pat_completeness auto
termination
  by (relation "measure (\<lambda>(be, p, model, maxRetries, attempt, lastErr, w). Suc maxRetries - attempt)")
     auto

declare retryLoop.simps [simp del]

text \<open>
  The model a call uses: the one of the options when they name one, the provider's
  \<open>defaultModel\<close> otherwise.
\<close>

definition modelFor :: "GenerateOptions option \<Rightarrow> world \<Rightarrow> string" where
  "modelFor options w =
     (case options of
        None \<Rightarrow> defaultModel w
      | Some opts \<Rightarrow> if opt_Model opts \<noteq> [] then opt_Model opts else defaultModel w)"

definition generateWithRetry ::
  "backend \<Rightarrow> prompt \<Rightarrow> GenerateOptions option \<Rightarrow> nat \<Rightarrow> world
     \<Rightarrow> (GenerateResponse option \<times> go_error option) \<times> world" where
  "generateWithRetry be p options maxRetries w =
     retryLoop be p (modelFor options w) maxRetries 1 None w"

definition Generate ::
  "backend \<Rightarrow> prompt \<Rightarrow> GenerateOptions option \<Rightarrow> world
     \<Rightarrow> (GenerateResponse option \<times> go_error option) \<times> world" where
  "Generate be p options w =
     (let w1 = acquireOllama w;
          (r, w2) = generateWithRetry be p options 3 w1
      in (r, releaseOllama w2))"

subsection \<open>Vocabulary for the retry loop's behaviour\<close>

text \<open>
  A reply is a transient failure when the loop goes on after it: the call failed, and
  either the error text has the crash signature or the context reports no error.
\<close>

definition failsTransient :: "reply \<Rightarrow> bool" where
  "failsTransient r =
     (case outcome r of Inl e \<Rightarrow> isCrash e \<or> ctx_Err r = None | Inr _ \<Rightarrow> False)"

text \<open>
  The delays around one attempt, in the words of the specification: a backoff of
  \<open>attempt \<times> 2\<close> seconds before every attempt but the first, and a cool-down of 5
  seconds after an attempt that failed with the crash signature.
\<close>

definition backoffBefore :: "nat \<Rightarrow> event list" where
  "backoffBefore attempt = (if attempt > 1 then [Slept (attempt * 2)] else [])"

definition coolDownAfter :: "go_error + GenerateResponse \<Rightarrow> event list" where
  "coolDownAfter r = (case r of Inl e \<Rightarrow> if isCrash e then [Slept 5] else [] | Inr _ \<Rightarrow> [])"

definition attemptEvents :: "backend \<Rightarrow> string \<Rightarrow> prompt \<Rightarrow> nat \<Rightarrow> nat \<Rightarrow> event list" where
  "attemptEvents be model p attempt n =
     backoffBefore attempt @ [Attempt model p] @ coolDownAfter (outcome (be n))"

text \<open>
  The number of attempts one \<open>Generate\<close> makes when its first call of
  \<open>doGenerate\<close> is the one numbered \<open>c\<close>: the loop stops at the first attempt that
  is not a transient failure, and at the third in any case.
\<close>

definition attemptsMade :: "backend \<Rightarrow> nat \<Rightarrow> nat" where
  "attemptsMade be c =
     (if \<not> failsTransient (be c) then 1
      else if \<not> failsTransient (be (Suc c)) then 2
      else 3)"

text \<open>
  The delay before attempt number \<open>attempt\<close>, after an attempt that failed with
  \<open>err\<close>, if the cool-down stood in place of the backoff: 5 seconds after a failure
  with the crash signature, \<open>attempt \<times> 2\<close> seconds after any other.
\<close>

definition delayInPlace :: "go_error \<Rightarrow> nat \<Rightarrow> event list" where
  "delayInPlace err attempt = (if isCrash err then [Slept 5] else [Slept (attempt * 2)])"

definition sameProvider :: "world \<Rightarrow> world \<Rightarrow> bool" where
  "sameProvider w w' = (baseURL w' = baseURL w \<and> defaultModel w' = defaultModel w)"

subsection \<open>Concrete runs\<close>

definition world0 :: world where
  "world0 = \<lparr>baseURL = ''http://localhost:11434'', defaultModel = ''qwen2.5:7b'',
             calls = 0, trace = []\<rparr>"

definition answer :: "string \<Rightarrow> reply" where
  "answer text =
     \<lparr>outcome = Inr \<lparr>resp_Content = text, resp_Model = ''qwen2.5:7b'', resp_Done = True\<rparr>,
      ctx_Err = None\<rparr>"

definition failure :: "string \<Rightarrow> ctx_error option \<Rightarrow> reply" where
  "failure msg c = \<lparr>outcome = Inl (Failure msg), ctx_Err = c\<rparr>"

text \<open>One refused connection, then an answer.\<close>

definition backendRecovers :: backend where
  "backendRecovers n = (if n = 0 then failure ''connection refused'' None else answer ''{}'')"

text \<open>Every call is refused.\<close>

definition backendDown :: backend where
  "backendDown n = failure ''connection refused'' None"

text \<open>
  The first call is answered with status 500 while the caller's context is already
  cancelled; every later call fails at once because of the cancelled context.
\<close>

definition backendCrashCancelled :: backend where
  "backendCrashCancelled n =
     (if n = 0 then failure ''ollama-fehler (500): runner terminated'' (Some Canceled)
      else failure ''ollama-anfrage fehlgeschlagen: context canceled'' (Some Canceled))"

text \<open>A crash, then a refused connection, then an answer.\<close>

definition backendCrashThenSlow :: backend where
  "backendCrashThenSlow n =
     (if n = 0 then failure ''ollama-fehler (500): out of memory'' None
      else if n = 1 then failure ''connection refused'' None
      else answer ''{}'')"

section \<open>The structured extractor\<close>

text \<open>
  \<open>strings.Index\<close> and \<open>strings.LastIndex\<close>, for a one-byte pattern as the source
  calls them (\<open>"{"\<close> and \<open>"}"\<close>): the position of the first and of the last
  occurrence, or -1.
\<close>

definition Index :: "string \<Rightarrow> char \<Rightarrow> int" where
  "Index text c =
     (if c \<in> set text then int (length (takeWhile (\<lambda>x. x \<noteq> c) text)) else - 1)"

definition LastIndex :: "string \<Rightarrow> char \<Rightarrow> int" where
  "LastIndex text c =
     (if c \<in> set text
      then int (length text) - 1 - int (length (takeWhile (\<lambda>x. x \<noteq> c) (rev text)))
      else - 1)"

text \<open>
  The slice expression \<open>s[lo:hi]\<close>. Go panics unless \<open>0 \<le> lo \<le> hi \<le> len(s)\<close>.
\<close>

definition slice :: "string \<Rightarrow> int \<Rightarrow> int \<Rightarrow> string option" where
  "slice s lo hi =
     (if 0 \<le> lo \<and> lo \<le> hi \<and> hi \<le> int (length s)
      then Some (take (nat (hi - lo)) (drop (nat lo) s))
      else None)"

text \<open>
  \<open>extractJSON\<close> of \<open>tutor.go\<close>. Its slice is taken only when
  \<open>0 \<le> start < end\<close>, so it cannot panic; the last branch is there for totality.
\<close>

definition extractJSON :: "string \<Rightarrow> string" where
  "extractJSON text =
     (let start = Index text CHR ''{'';
          end = LastIndex text CHR ''}''
      in if start = - 1 \<or> end = - 1 \<or> start \<ge> end then ''{}''
         else (case slice text start (end + 1) of Some s \<Rightarrow> s | None \<Rightarrow> ''{}''))"

text \<open>
  The payload is absent when a delimiter is missing or the first opening delimiter comes
  after the last closing one.
\<close>

definition payloadAbsent :: "string \<Rightarrow> bool" where
  "payloadAbsent text =
     (CHR ''{'' \<notin> set text \<or> CHR ''}'' \<notin> set text \<or>
      LastIndex text CHR ''}'' < Index text CHR ''{'')"

section \<open>Documents and topics\<close>

record Document =
  doc_ID :: string
  doc_Name :: string
  doc_Path :: string
  doc_Content :: string
  doc_PageCount :: int

record Topic =
  topic_ID :: string
  topic_StudyPlanID :: string
  topic_Name :: string
  topic_Description :: string
  topic_Content :: string
  topic_Order :: int
  topic_Difficulty :: int
  topic_EstMinutes :: int
  topic_Status :: string

text \<open>The element of the anonymous struct \<open>parseTopicsFromResponse\<close> decodes into.\<close>

record RawTopic =
  raw_Name :: string
  raw_Description :: string
  raw_Difficulty :: int
  raw_EstMinutes :: int

text \<open>
  Functions of Go's standard library the code calls and this theory does not define:
  \<open>strings.ToLower\<close>, and \<open>json.Unmarshal\<close> at the two result types used here (the
  field \<open>topics\<close> of the topic list, the field \<open>priority\<close> of the ranking).
\<close>

record stdlib =
  ToLower :: "string \<Rightarrow> string"
  UnmarshalTopics :: "string \<Rightarrow> go_error + RawTopic list"
  UnmarshalPriority :: "string \<Rightarrow> go_error + string list"

definition newTopic :: "RawTopic \<Rightarrow> Topic" where
  "newTopic t =
     \<lparr>topic_ID = [], topic_StudyPlanID = [], topic_Name = raw_Name t,
      topic_Description = raw_Description t, topic_Content = [], topic_Order = 0,
      topic_Difficulty = raw_Difficulty t, topic_EstMinutes = raw_EstMinutes t,
      topic_Status = []\<rparr>"

definition parseTopicsFromResponse :: "stdlib \<Rightarrow> string \<Rightarrow> go_error + Topic list" where
  "parseTopicsFromResponse lib response =
     (let jsonStr = extractJSON response
      in case UnmarshalTopics lib jsonStr of
           Inl err \<Rightarrow> Inl err
         | Inr result \<Rightarrow> Inr (map newTopic result))"

text \<open>
  The loop shared by \<open>deduplicateDocuments\<close> and \<open>deduplicateTopics\<close>: \<open>seen\<close> is
  the map to \<open>bool\<close> (a missing key reads as false), \<open>result\<close> the slice appended to.
\<close>

fun dedupLoop :: "('a \<Rightarrow> string) \<Rightarrow> 'a list \<Rightarrow> (string \<Rightarrow> bool) \<Rightarrow> 'a list \<Rightarrow> 'a list" where
  "dedupLoop key [] seen result = result"
| "dedupLoop key (x # xs) seen result =
     (if \<not> seen (key x) then dedupLoop key xs (seen(key x := True)) (result @ [x])
      else dedupLoop key xs seen result)"

definition deduplicateDocuments :: "Document list \<Rightarrow> Document list" where
  "deduplicateDocuments docs = dedupLoop doc_Name docs (\<lambda>_. False) []"

definition deduplicateTopics :: "stdlib \<Rightarrow> Topic list \<Rightarrow> Topic list" where
  "deduplicateTopics lib topics =
     dedupLoop (\<lambda>t. ToLower lib (topic_Name t)) topics (\<lambda>_. False) []"

text \<open>
  What the specification asks of a deduplication by \<open>key\<close>: the output is the input
  with elements left out, no key occurs twice in it, every key of the input occurs in it,
  and each element kept is the first of the input with its key.
\<close>

definition keepsFirstOccurrences :: "('a \<Rightarrow> string) \<Rightarrow> 'a list \<Rightarrow> 'a list \<Rightarrow> bool" where
  "keepsFirstOccurrences key xs out =
     (subseq out xs \<and> distinct (map key out) \<and> key ` set out = key ` set xs \<and>
      (\<forall>x \<in> set out. find (\<lambda>y. key y = key x) xs = Some x))"

section \<open>The document analysis pipeline\<close>

text \<open>
  A call either returns or panics (a slice out of range, a nil pointer read). Deferred
  calls run in both cases.
\<close>

datatype 'a result = Returns 'a | Panics

record ParallelAgentConfig =
  MaxWorkers :: int
  FastModel :: string

definition analysisOptions :: GenerateOptions where
  "analysisOptions =
     \<lparr>opt_Model = [],
      opt_System = ''Du bist ein Lernassistent. Antworte kurz und nur im JSON-Format.''\<rparr>"

definition priorityOptions :: GenerateOptions where
  "priorityOptions =
     \<lparr>opt_Model = [],
      opt_System = ''Du bist ein Pr'' @ [CHR 0xC3, CHR 0xBC] @
                   ''fungsexperte. Antworte nur im JSON-Format.''\<rparr>"

definition analyzeOneDocument ::
  "stdlib \<Rightarrow> ParallelAgentConfig \<Rightarrow> backend \<Rightarrow> Document \<Rightarrow> world
     \<Rightarrow> (go_error + Topic list) result \<times> world" where
  "analyzeOneDocument lib config be doc w =
     (let content = (if length (doc_Content doc) > 4000 then take 4000 (doc_Content doc)
                     else doc_Content doc);
          p = AnalysisPrompt (doc_Name doc) content;
          oldModel = GetCurrentModel w;
          switch = (FastModel config \<noteq> [] \<and> FastModel config \<noteq> oldModel);
          w1 = (if switch then SetModel (FastModel config) w else w);
          deferred = (\<lambda>w'. if switch then SetModel oldModel w' else w');
          ((resp, err), w2) = Generate be p (Some analysisOptions) w1
      in case err of
           Some e \<Rightarrow> (Returns (Inl e), deferred w2)
         | None \<Rightarrow>
             (case resp of
                None \<Rightarrow> (Panics, deferred w2)
              | Some r \<Rightarrow> (Returns (parseTopicsFromResponse lib (resp_Content r)), deferred w2)))"

text \<open>
  The loop of \<open>analyzeDocumentsSequentially\<close>, with \<open>allTopics\<close> as accumulator.
\<close>

fun analyzeLoop ::
  "stdlib \<Rightarrow> ParallelAgentConfig \<Rightarrow> backend \<Rightarrow> Document list \<Rightarrow> Topic list \<Rightarrow> world
     \<Rightarrow> Topic list result \<times> world" where
  "analyzeLoop lib config be [] allTopics w = (Returns allTopics, w)"
| "analyzeLoop lib config be (doc # docs) allTopics w =
     (case analyzeOneDocument lib config be doc w of
        (Panics, w1) \<Rightarrow> (Panics, w1)
      | (Returns (Inl err), w1) \<Rightarrow> analyzeLoop lib config be docs allTopics w1
      | (Returns (Inr topics), w1) \<Rightarrow> analyzeLoop lib config be docs (allTopics @ topics) w1)"

definition analyzeDocumentsSequentially ::
  "stdlib \<Rightarrow> ParallelAgentConfig \<Rightarrow> backend \<Rightarrow> Document list \<Rightarrow> world
     \<Rightarrow> Topic list result \<times> world" where
  "analyzeDocumentsSequentially lib config be docs w =
     (if docs = [] then (Returns [], w) else analyzeLoop lib config be docs [] w)"

subsection \<open>Prioritization\<close>

text \<open>The loop that fills \<open>priorityMap\<close>: a later entry for the same key replaces an earlier one.\<close>

fun priorityMapLoop :: "stdlib \<Rightarrow> string list \<Rightarrow> nat \<Rightarrow> (string \<rightharpoonup> nat) \<Rightarrow> (string \<rightharpoonup> nat)" where
  "priorityMapLoop lib [] i m = m"
| "priorityMapLoop lib (name # names) i m =
     priorityMapLoop lib names (Suc i) (m(ToLower lib name \<mapsto> i))"

text \<open>The values \<open>pi\<close> and \<open>pj\<close> of the sort: the entry of the map, or 999.\<close>

definition priorityOf :: "stdlib \<Rightarrow> (string \<rightharpoonup> nat) \<Rightarrow> Topic \<Rightarrow> nat" where
  "priorityOf lib m t = (case m (ToLower lib (topic_Name t)) of Some i \<Rightarrow> i | None \<Rightarrow> 999)"

text \<open>The inner loop of the sort, over \<open>j\<close>, and the outer one, over \<open>i\<close>.\<close>

function sortInner :: "('a \<Rightarrow> nat) \<Rightarrow> 'a list \<Rightarrow> nat \<Rightarrow> nat \<Rightarrow> 'a list" where
  "sortInner pr ts i j =
     (if j < length ts then
        (let pi = pr (ts ! i); pj = pr (ts ! j)
         in sortInner pr (if pj < pi then ts[i := ts ! j, j := ts ! i] else ts) i (Suc j))
      else ts)"
  by pat_completeness auto
termination
  by (relation "measure (\<lambda>(pr, ts, i, j). length ts - j)") auto

declare sortInner.simps [simp del]

lemma length_sortInner [simp]: "length (sortInner pr ts i j) = length ts"
proof (induction pr ts i j rule: sortInner.induct)
  case (1 pr ts i j)
  show ?case
  proof (cases "j < length ts")
    case True
    with "1.IH"[OF True refl refl] show ?thesis
      by (simp add: sortInner.simps[of pr ts i j] Let_def)
  next
    case False
    then show ?thesis by (simp add: sortInner.simps[of pr ts i j])
  qed
qed

function sortOuter :: "('a \<Rightarrow> nat) \<Rightarrow> 'a list \<Rightarrow> nat \<Rightarrow> 'a list" where
  "sortOuter pr ts i =
     (if i < length ts then sortOuter pr (sortInner pr ts i (Suc i)) (Suc i) else ts)"
  by pat_completeness auto
termination
  by (relation "measure (\<lambda>(pr, ts, i). length ts - i)") auto

declare sortOuter.simps [simp del]

text \<open>The invariant of the outer loop: every position before \<open>i\<close> holds a value that is at most every later one.\<close>

definition settled :: "('a \<Rightarrow> nat) \<Rightarrow> 'a list \<Rightarrow> nat \<Rightarrow> bool" where
  "settled pr ts i = (\<forall>a b. a < i \<and> a < b \<and> b < length ts \<longrightarrow> pr (ts ! a) \<le> pr (ts ! b))"

text \<open>
  The part of \<open>prioritizeWithExams\<close> after decoding: the map, the copy of the topics,
  the sort.
\<close>

definition sortByPriority :: "stdlib \<Rightarrow> string list \<Rightarrow> Topic list \<Rightarrow> Topic list" where
  "sortByPriority lib priority topics =
     sortOuter (priorityOf lib (priorityMapLoop lib priority 0 Map.empty)) topics 0"

fun examContentLoop :: "Document list \<Rightarrow> string \<Rightarrow> string" where
  "examContentLoop [] examContent = examContent"
| "examContentLoop (doc # docs) examContent =
     (let content = (if length (doc_Content doc) > 2000 then take 2000 (doc_Content doc)
                     else doc_Content doc);
          examContent' = examContent @ content @ [CHR 0x0A]
      in if length examContent' > 10000 then examContent'
         else examContentLoop docs examContent')"

fun Join :: "string list \<Rightarrow> string \<Rightarrow> string" where
  "Join [] sep = []"
| "Join [s] sep = s"
| "Join (s # ss) sep = s @ sep @ Join ss sep"

text \<open>
  The extraction written out in \<open>prioritizeWithExams\<close>. Unlike \<open>extractJSON\<close> it
  does not compare \<open>start\<close> with \<open>end\<close> before slicing.
\<close>

definition priorityJSON :: "string \<Rightarrow> string option" where
  "priorityJSON jsonStr =
     (let start = Index jsonStr CHR ''{''
      in if start \<noteq> - 1
         then (let end = LastIndex jsonStr CHR ''}''
               in if end \<noteq> - 1 then slice jsonStr start (end + 1) else Some jsonStr)
         else Some jsonStr)"

definition prioritizeWithExams ::
  "stdlib \<Rightarrow> ParallelAgentConfig \<Rightarrow> backend \<Rightarrow> Topic list \<Rightarrow> Document list \<Rightarrow> world
     \<Rightarrow> Topic list result \<times> world" where
  "prioritizeWithExams lib config be topics examDocs w =
     (if examDocs = [] \<or> topics = [] then (Returns topics, w)
      else
        (let examContent = examContentLoop examDocs [];
             topicNames = map topic_Name topics;
             p = PriorityPrompt (Join topicNames '', '') examContent;
             oldModel = GetCurrentModel w;
             switch = (FastModel config \<noteq> []);
             w1 = (if switch then SetModel (FastModel config) w else w);
             deferred = (\<lambda>w'. if switch then SetModel oldModel w' else w');
             ((resp, err), w2) = Generate be p (Some priorityOptions) w1
         in case err of
              Some e \<Rightarrow> (Returns topics, deferred w2)
            | None \<Rightarrow>
                (case resp of
                   None \<Rightarrow> (Panics, deferred w2)
                 | Some r \<Rightarrow>
                     (case priorityJSON (resp_Content r) of
                        None \<Rightarrow> (Panics, deferred w2)
                      | Some jsonStr \<Rightarrow>
                          (case UnmarshalPriority lib jsonStr of
                             Inl e \<Rightarrow> (Returns topics, deferred w2)
                           | Inr priority \<Rightarrow>
                               (Returns (sortByPriority lib priority topics), deferred w2))))))"

text \<open>
  Vocabulary for the order the sort produces. The rank of a topic is the entry of the
  priority map for its lower-cased name, if there is one. A list has the ranked topics
  first when, of two positions, the later one holding a ranked topic means that the
  earlier one holds a ranked topic of at most that rank. The topics outside the ranking
  keep their order when leaving out the ranked ones gives the same list before and after.
\<close>

definition rankOf :: "stdlib \<Rightarrow> string list \<Rightarrow> Topic \<Rightarrow> nat option" where
  "rankOf lib priority t = priorityMapLoop lib priority 0 Map.empty (ToLower lib (topic_Name t))"

definition rankedFirst :: "stdlib \<Rightarrow> string list \<Rightarrow> Topic list \<Rightarrow> bool" where
  "rankedFirst lib priority out =
     (\<forall>j < length out. \<forall>i < j.
        (case rankOf lib priority (out ! j) of
           None \<Rightarrow> True
         | Some rj \<Rightarrow>
             (case rankOf lib priority (out ! i) of None \<Rightarrow> False | Some ri \<Rightarrow> ri \<le> rj)))"

definition unrankedKeepOrder :: "stdlib \<Rightarrow> string list \<Rightarrow> Topic list \<Rightarrow> Topic list \<Rightarrow> bool" where
  "unrankedKeepOrder lib priority topics out =
     (filter (\<lambda>t. rankOf lib priority t = None) out =
      filter (\<lambda>t. rankOf lib priority t = None) topics)"

text \<open>
  The call of \<open>Generate\<close> that \<open>prioritizeWithExams\<close> makes when it has exam
  documents and topics, with what it returns and the state it leaves (before the
  deferred \<open>SetModel\<close>).
\<close>

definition priorityCall ::
  "ParallelAgentConfig \<Rightarrow> backend \<Rightarrow> Topic list \<Rightarrow> Document list \<Rightarrow> world
     \<Rightarrow> (GenerateResponse option \<times> go_error option) \<times> world" where
  "priorityCall config be topics examDocs w =
     Generate be
       (PriorityPrompt (Join (map topic_Name topics) '', '') (examContentLoop examDocs []))
       (Some priorityOptions)
       (if FastModel config \<noteq> [] then SetModel (FastModel config) w else w)"

text \<open>
  The rank of a topic is the last position of the ranking that holds its name, up to
  case.
\<close>

definition lastPosition :: "stdlib \<Rightarrow> string list \<Rightarrow> Topic \<Rightarrow> nat \<Rightarrow> bool" where
  "lastPosition lib priority t rk =
     (rk < length priority \<and>
      ToLower lib (priority ! rk) = ToLower lib (topic_Name t) \<and>
      (\<forall>j. rk < j \<and> j < length priority \<longrightarrow>
           ToLower lib (priority ! j) \<noteq> ToLower lib (topic_Name t)))"

subsection \<open>The entry point\<close>

definition isExamName :: "stdlib \<Rightarrow> string \<Rightarrow> bool" where
  "isExamName lib name =
     (let nameLower = ToLower lib name
      in Contains nameLower ''klausur'' \<or>
         Contains nameLower ([CHR 0xC3, CHR 0xBC] @ ''bung''))"

primrec categorizeDocuments :: "stdlib \<Rightarrow> Document list \<Rightarrow> Document list \<times> Document list" where
  "categorizeDocuments lib [] = ([], [])"
| "categorizeDocuments lib (doc # docs) =
     (let (main, exams) = categorizeDocuments lib docs
      in if isExamName lib (doc_Name doc) then (main, doc # exams) else (doc # main, exams))"

definition AnalyzeDocumentsParallel ::
  "stdlib \<Rightarrow> ParallelAgentConfig \<Rightarrow> backend \<Rightarrow> Document list \<Rightarrow> world
     \<Rightarrow> (Topic list \<times> go_error option) result \<times> world" where
  "AnalyzeDocumentsParallel lib config be documents w =
     (let uniqueDocs = deduplicateDocuments documents;
          (mainDocs, examDocs) = categorizeDocuments lib uniqueDocs
      in case analyzeDocumentsSequentially lib config be mainDocs w of
           (Panics, w1) \<Rightarrow> (Panics, w1)
         | (Returns mainTopics, w1) \<Rightarrow>
             (case (if examDocs \<noteq> [] \<and> mainTopics \<noteq> []
                    then prioritizeWithExams lib config be mainTopics examDocs w1
                    else (Returns mainTopics, w1)) of
                (Panics, w2) \<Rightarrow> (Panics, w2)
              | (Returns prioritized, w2) \<Rightarrow>
                  (Returns (deduplicateTopics lib prioritized, None), w2)))"

text \<open>
  The results of \<open>analyzeOneDocument\<close> for the documents in turn, each started in
  the state the one before has left.
\<close>

fun analysisResults ::
  "stdlib \<Rightarrow> ParallelAgentConfig \<Rightarrow> backend \<Rightarrow> Document list \<Rightarrow> world
     \<Rightarrow> (go_error + Topic list) result list" where
  "analysisResults lib config be [] w = []"
| "analysisResults lib config be (doc # docs) w =
     fst (analyzeOneDocument lib config be doc w) #
     analysisResults lib config be docs (snd (analyzeOneDocument lib config be doc w))"

fun topicsOf :: "(go_error + Topic list) result \<Rightarrow> Topic list" where
  "topicsOf (Returns (Inr topics)) = topics"
| "topicsOf (Returns (Inl err)) = []"
| "topicsOf Panics = []"

text \<open>
  No answer of the backend makes the slice of \<open>prioritizeWithExams\<close> panic: none has
  its first opening brace more than one position behind its last closing brace.
\<close>

definition sliceable :: "backend \<Rightarrow> bool" where
  "sliceable be =
     (\<forall>n. case outcome (be n) of
             Inr r \<Rightarrow> priorityJSON (resp_Content r) \<noteq> None
           | Inl err \<Rightarrow> True)"

text \<open>The models of the calls of \<open>doGenerate\<close> among some events.\<close>

fun modelsUsed :: "event list \<Rightarrow> string list" where
  "modelsUsed [] = []"
| "modelsUsed (Attempt model p # es) = model # modelsUsed es"
| "modelsUsed (e # es) = modelsUsed es"

definition newEvents :: "world \<Rightarrow> world \<Rightarrow> event list" where
  "newEvents w w' = drop (length (trace w)) (trace w')"

section \<open>The streaming decoder\<close>

record StreamChunk =
  chunk_Content :: string
  chunk_Done :: bool
  chunk_Error :: "go_error option"

text \<open>
  What one call of \<open>decoder.Decode\<close> gives: a frame (\<open>response\<close>, \<open>done\<close>), the
  error \<open>io.EOF\<close>, or another error. The body of the response is the sequence of
  these, by the number of the call.
\<close>

datatype decoded = Frame string bool | EndOfStream | Broken go_error

text \<open>
  The loop of the goroutine of \<open>GenerateStream\<close>; \<open>sent\<close> is what has been sent on
  the channel. The loop has no bound of its own: on a body that never ends it does not
  return.
\<close>

partial_function (option) streamLoop ::
  "(nat \<Rightarrow> decoded) \<Rightarrow> nat \<Rightarrow> StreamChunk list \<Rightarrow> StreamChunk list option" where
  "streamLoop body i sent =
     (case body i of
        Broken err \<Rightarrow>
          Some (sent @ [\<lparr>chunk_Content = [], chunk_Done = False, chunk_Error = Some err\<rparr>])
      | EndOfStream \<Rightarrow> Some sent
      | Frame response done \<Rightarrow>
          (if done
           then Some (sent @ [\<lparr>chunk_Content = response, chunk_Done = done,
                                chunk_Error = None\<rparr>])
           else streamLoop body (Suc i)
                  (sent @ [\<lparr>chunk_Content = response, chunk_Done = done,
                            chunk_Error = None\<rparr>])))"

definition streamChunks :: "(nat \<Rightarrow> decoded) \<Rightarrow> StreamChunk list option" where
  "streamChunks body = streamLoop body 0 []"

text \<open>
  Vocabulary: a read after which the loop goes on (a frame that is not done); a body
  whose first other read is the one numbered \<open>n\<close>; the chunk sent for a read.
\<close>

fun continues :: "decoded \<Rightarrow> bool" where
  "continues (Frame response done) = (\<not> done)"
| "continues EndOfStream = False"
| "continues (Broken err) = False"

definition endsAt :: "(nat \<Rightarrow> decoded) \<Rightarrow> nat \<Rightarrow> bool" where
  "endsAt body n = ((\<forall>i < n. continues (body i)) \<and> \<not> continues (body n))"

fun chunksFor :: "decoded \<Rightarrow> StreamChunk list" where
  "chunksFor (Frame response done) =
     [\<lparr>chunk_Content = response, chunk_Done = done, chunk_Error = None\<rparr>]"
| "chunksFor EndOfStream = []"
| "chunksFor (Broken err) = [\<lparr>chunk_Content = [], chunk_Done = False, chunk_Error = Some err\<rparr>]"

definition terminal :: "StreamChunk \<Rightarrow> bool" where
  "terminal c = (chunk_Done c \<or> chunk_Error c \<noteq> None)"

section \<open>The admission gate under concurrent callers\<close>

text \<open>
  What a call does to the gate and to the backend, in order. \<open>Generate\<close> takes the
  slot, makes its attempts (each a request that begins and ends) and frees the slot.
  \<open>GenerateStream\<close> and \<open>Chat\<close> send their request without touching the gate.
\<close>

datatype action = Acquire | Release | RequestBegins | RequestEnds

definition GenerateActions :: "nat \<Rightarrow> action list" where
  "GenerateActions attempts =
     [Acquire] @ concat (replicate attempts [RequestBegins, RequestEnds]) @ [Release]"

definition GenerateStreamActions :: "action list" where
  "GenerateStreamActions = [RequestBegins, RequestEnds]"

definition ChatActions :: "action list" where
  "ChatActions = [RequestBegins, RequestEnds]"

text \<open>
  The state of the process: the number of elements in the channel \<open>ollamaSemaphore\<close>
  (capacity 1), the number of requests in flight at the backend, and what each caller
  has still to do.
\<close>

record system =
  slot :: nat
  inFlight :: nat
  callers :: "action list list"

text \<open>
  Caller \<open>i\<close> does its next action. Sending on the full channel and receiving from the
  empty one block: then there is no step.
\<close>

definition step :: "system \<Rightarrow> nat \<Rightarrow> system option" where
  "step s i =
     (if i < length (callers s) then
        (case callers s ! i of
           [] \<Rightarrow> None
         | a # rest \<Rightarrow>
             (case a of
                Acquire \<Rightarrow>
                  if slot s < 1
                  then Some (s\<lparr>slot := slot s + 1, callers := (callers s)[i := rest]\<rparr>)
                  else None
              | Release \<Rightarrow>
                  if 0 < slot s
                  then Some (s\<lparr>slot := slot s - 1, callers := (callers s)[i := rest]\<rparr>)
                  else None
              | RequestBegins \<Rightarrow>
                  Some (s\<lparr>inFlight := inFlight s + 1, callers := (callers s)[i := rest]\<rparr>)
              | RequestEnds \<Rightarrow>
                  Some (s\<lparr>inFlight := inFlight s - 1, callers := (callers s)[i := rest]\<rparr>)))
      else None)"

text \<open>A schedule names the caller of each step.\<close>

fun run :: "system \<Rightarrow> nat list \<Rightarrow> system option" where
  "run s [] = Some s"
| "run s (i # schedule) = (case step s i of None \<Rightarrow> None | Some s' \<Rightarrow> run s' schedule)"

definition start :: "action list list \<Rightarrow> system" where
  "start cs = \<lparr>slot = 0, inFlight = 0, callers = cs\<rparr>"

text \<open>
  Vocabulary for callers of \<open>Generate\<close>. What is left of a call after it has taken
  the slot: requests, each beginning and ending, and the release. A caller holds the slot
  when it has started and its next action is not the acquisition; it has a request in
  flight when its next action is to end one.
\<close>

fun afterAcquire :: "action list \<Rightarrow> bool" where
  "afterAcquire [Release] = True"
| "afterAcquire (RequestBegins # RequestEnds # rest) = afterAcquire rest"
| "afterAcquire rest = False"

definition generating :: "action list \<Rightarrow> bool" where
  "generating prog =
     (case prog of
        [] \<Rightarrow> True
      | Acquire # rest \<Rightarrow> afterAcquire rest
      | RequestEnds # rest \<Rightarrow> afterAcquire rest
      | a # rest \<Rightarrow> afterAcquire prog)"

definition holding :: "action list \<Rightarrow> bool" where
  "holding prog = (case prog of [] \<Rightarrow> False | a # rest \<Rightarrow> a \<noteq> Acquire)"

definition flying :: "action list \<Rightarrow> bool" where
  "flying prog = (case prog of [] \<Rightarrow> False | a # rest \<Rightarrow> a = RequestEnds)"

definition gateInvariant :: "system \<Rightarrow> bool" where
  "gateInvariant s =
     (list_all generating (callers s) \<and>
      slot s = length (filter holding (callers s)) \<and>
      inFlight s = length (filter flying (callers s)) \<and>
      slot s \<le> 1)"

subsection \<open>Concrete values\<close>

text \<open>Lower-casing of the ASCII letters; on ASCII text it is \<open>strings.ToLower\<close>.\<close>

definition asciiLower :: "string \<Rightarrow> string" where
  "asciiLower s =
     map (\<lambda>c. case map_of (zip ''ABCDEFGHIJKLMNOPQRSTUVWXYZ'' ''abcdefghijklmnopqrstuvwxyz'') c of
               Some l \<Rightarrow> l
             | None \<Rightarrow> c) s"

definition mkDoc :: "string \<Rightarrow> string \<Rightarrow> Document" where
  "mkDoc name content =
     \<lparr>doc_ID = name, doc_Name = name, doc_Path = [], doc_Content = content, doc_PageCount = 1\<rparr>"

definition mkTopic :: "string \<Rightarrow> Topic" where
  "mkTopic name = newTopic \<lparr>raw_Name = name, raw_Description = [], raw_Difficulty = 1,
     raw_EstMinutes = 30\<rparr>"

text \<open>
  A stand-in for the decoder at concrete inputs: it knows the empty object and one
  payload of each kind, and fails on anything else.
\<close>

definition toyLib :: stdlib where
  \<open>toyLib =
     \<lparr>ToLower = asciiLower,
      UnmarshalTopics = (\<lambda>s.
        if s = ''{}'' then Inr []
        else if s = ''{"topics": [{"name": "Sets"}]}''
        then Inr [\<lparr>raw_Name = ''Sets'', raw_Description = [], raw_Difficulty = 0,
                   raw_EstMinutes = 0\<rparr>]
        else Inl (Failure ''invalid character'')),
      UnmarshalPriority = (\<lambda>s.
        if s = ''{}'' then Inr []
        else if s = ''{"priority": ["c"]}'' then Inr [''c'']
        else Inl (Failure ''invalid character''))\<rparr>\<close>

text \<open>A backend that answers every call with the ranking \<open>{"priority": ["c"]}\<close>.\<close>

definition backendRanks :: backend where
  \<open>backendRanks n = answer ''Here it is: {"priority": ["c"]}''\<close>

definition fastConfig :: ParallelAgentConfig where
  "fastConfig = \<lparr>MaxWorkers = 1, FastModel = ''llama3.2:3b''\<rparr>"

text \<open>Every call fails with status 500.\<close>

definition backendAllCrash :: backend where
  "backendAllCrash n = failure ''ollama-fehler (500): runner terminated'' None"

text \<open>One refused connection, then the ranking \<open>{"priority": ["c"]}\<close>.\<close>

definition backendRanksLate :: backend where
  \<open>backendRanksLate n =
     (if n = 0 then failure ''connection refused'' None
      else answer ''Here it is: {"priority": ["c"]}'')\<close>

text \<open>
  The first call is answered with one topic; every later call fails because the
  caller's context is cancelled.
\<close>

definition backendCancelledMidway :: backend where
  \<open>backendCancelledMidway n =
     (if n = 0 then answer ''{"topics": [{"name": "Sets"}]}''
      else failure ''ollama-anfrage fehlgeschlagen: context canceled'' (Some Canceled))\<close>

text \<open>Every call fails because the caller's context is cancelled.\<close>

definition backendCancelled :: backend where
  "backendCancelled n =
     failure ''ollama-anfrage fehlgeschlagen: context canceled'' (Some Canceled)"

text \<open>Every call is answered with a closing brace followed, two bytes on, by an opening one.\<close>

definition backendBraces :: backend where
  "backendBraces n = answer ''} {''"

text \<open>A body with one frame, then the end of the stream; one that breaks; one that is done.\<close>

definition bodyCutShort :: "nat \<Rightarrow> decoded" where
  "bodyCutShort i = (if i = 0 then Frame ''Hel'' False else EndOfStream)"

definition bodyBroken :: "nat \<Rightarrow> decoded" where
  "bodyBroken i =
     (if i = 0 then Frame ''Hel'' False else Broken (Failure ''unexpected end of JSON input''))"

definition bodyDone :: "nat \<Rightarrow> decoded" where
  "bodyDone i = (if i = 0 then Frame ''Hel'' False else Frame ''lo'' True)"

section \<open>Properties of the retry loop\<close>

lemmas world_ops = Sleep_def emit_def doGenerate_def attemptEvents_def backoffBefore_def
  coolDownAfter_def

lemma retryLoop_exit:
  "\<not> attempt \<le> maxRetries \<Longrightarrow>
   retryLoop be p model maxRetries attempt lastErr w = ((None, lastErr), w)"
  by (simp add: retryLoop.simps[of be p model maxRetries attempt lastErr w])

lemma retryLoop_ok:
  assumes "attempt \<le> maxRetries" and "outcome (be (calls w)) = Inr resp"
  shows "\<exists>w'. retryLoop be p model maxRetries attempt lastErr w = ((Some resp, None), w') \<and>
           calls w' = Suc (calls w) \<and> sameProvider w w' \<and>
           trace w' = trace w @ attemptEvents be model p attempt (calls w)"
  using assms
  by (simp add: retryLoop.simps[of be p model maxRetries attempt lastErr w] world_ops
      sameProvider_def)

lemma retryLoop_cancelled:
  assumes "attempt \<le> maxRetries" and "outcome (be (calls w)) = Inl e" and "\<not> isCrash e"
    and "ctx_Err (be (calls w)) = Some ce"
  shows "\<exists>w'. retryLoop be p model maxRetries attempt lastErr w =
                 ((None, Some (ContextErr ce)), w') \<and>
           calls w' = Suc (calls w) \<and> sameProvider w w' \<and>
           trace w' = trace w @ attemptEvents be model p attempt (calls w)"
  using assms
  by (simp add: retryLoop.simps[of be p model maxRetries attempt lastErr w] world_ops
      sameProvider_def)

lemma retryLoop_again:
  assumes "attempt \<le> maxRetries" and "outcome (be (calls w)) = Inl e"
    and "isCrash e \<or> ctx_Err (be (calls w)) = None"
  shows "\<exists>w'. retryLoop be p model maxRetries attempt lastErr w =
                 retryLoop be p model maxRetries (Suc attempt) (Some e) w' \<and>
           calls w' = Suc (calls w) \<and> sameProvider w w' \<and>
           trace w' = trace w @ attemptEvents be model p attempt (calls w)"
  using assms
  by (auto simp: retryLoop.simps[of be p model maxRetries attempt lastErr w] world_ops
      sameProvider_def)

lemma concat_upt_Suc:
  "concat (map f [0..<Suc k]) = f 0 @ concat (map (\<lambda>j. f (Suc j)) [0..<k])"
proof -
  have "[0..<Suc k] = 0 # map Suc [0..<k]"
    by (simp add: upt_conv_Cons map_Suc_upt del: upt_Suc)
  then show ?thesis by (simp add: comp_def del: upt_Suc)
qed

lemma retryLoop_effect:
  "\<exists>k. calls (snd (retryLoop be p model maxRetries attempt lastErr w)) = calls w + k \<and>
       sameProvider w (snd (retryLoop be p model maxRetries attempt lastErr w)) \<and>
       trace (snd (retryLoop be p model maxRetries attempt lastErr w)) =
         trace w @ concat (map (\<lambda>j. attemptEvents be model p (attempt + j) (calls w + j)) [0..<k])"
proof (induction "Suc maxRetries - attempt" arbitrary: attempt lastErr w)
  case 0
  then have "\<not> attempt \<le> maxRetries" by simp
  then show ?case
    by (intro exI[of _ 0]) (simp add: retryLoop_exit sameProvider_def)
next
  case (Suc n)
  then have le: "attempt \<le> maxRetries" by simp
  let ?ev = "attemptEvents be model p attempt (calls w)"
  show ?case
  proof (cases "outcome (be (calls w))")
    case (Inr resp)
    from retryLoop_ok[where be=be and w=w and p=p and model=model and lastErr=lastErr, OF le Inr] show ?thesis
      by (intro exI[of _ 1]) auto
  next
    case (Inl e)
    show ?thesis
    proof (cases "isCrash e \<or> ctx_Err (be (calls w)) = None")
      case False
      then obtain ce where "\<not> isCrash e" "ctx_Err (be (calls w)) = Some ce" by auto
      from retryLoop_cancelled[where be=be and w=w and p=p and model=model and lastErr=lastErr, OF le Inl this] show ?thesis
        by (intro exI[of _ 1]) auto
    next
      case True
      from retryLoop_again[where be=be and w=w and p=p and model=model and lastErr=lastErr, OF le Inl True] obtain w1 where
        w1: "retryLoop be p model maxRetries attempt lastErr w =
               retryLoop be p model maxRetries (Suc attempt) (Some e) w1"
            "calls w1 = Suc (calls w)" "sameProvider w w1" "trace w1 = trace w @ ?ev"
        by blast
      have "n = Suc maxRetries - Suc attempt" using Suc.hyps(2) by simp
      from Suc.hyps(1)[OF this, where lastErr="Some e" and w=w1] obtain k where
        k: "calls (snd (retryLoop be p model maxRetries (Suc attempt) (Some e) w1)) = calls w1 + k"
           "sameProvider w1 (snd (retryLoop be p model maxRetries (Suc attempt) (Some e) w1))"
           "trace (snd (retryLoop be p model maxRetries (Suc attempt) (Some e) w1)) =
              trace w1 @ concat (map (\<lambda>j. attemptEvents be model p (Suc attempt + j) (calls w1 + j)) [0..<k])"
        by blast
      show ?thesis
        using w1 k
        by (intro exI[of _ "Suc k"]) (simp add: concat_upt_Suc sameProvider_def del: upt_Suc)
    qed
  qed
qed

lemma retryLoop_success:
  "\<forall>i<j. failsTransient (be (calls w + i)) \<Longrightarrow> outcome (be (calls w + j)) = Inr resp \<Longrightarrow>
   attempt + j \<le> maxRetries \<Longrightarrow>
   fst (retryLoop be p model maxRetries attempt lastErr w) = (Some resp, None) \<and>
   calls (snd (retryLoop be p model maxRetries attempt lastErr w)) = calls w + Suc j"
proof (induction j arbitrary: attempt lastErr w)
  case 0
  then show ?case
    using retryLoop_ok[where be=be and w=w and p=p and model=model and lastErr=lastErr and attempt=attempt and maxRetries=maxRetries and resp=resp] by auto
next
  case (Suc j)
  from Suc.prems(1) have "failsTransient (be (calls w))" by force
  then obtain e where e: "outcome (be (calls w)) = Inl e"
      "isCrash e \<or> ctx_Err (be (calls w)) = None"
    by (auto simp: failsTransient_def split: sum.splits)
  have le: "attempt \<le> maxRetries" using Suc.prems(3) by simp
  from retryLoop_again[where be=be and w=w and p=p and model=model and lastErr=lastErr, OF le e] obtain w1 where
    w1: "retryLoop be p model maxRetries attempt lastErr w =
           retryLoop be p model maxRetries (Suc attempt) (Some e) w1"
        "calls w1 = Suc (calls w)"
    by blast
  have "\<forall>i<j. failsTransient (be (calls w1 + i))" using Suc.prems(1) w1(2) by auto
  moreover have "outcome (be (calls w1 + j)) = Inr resp" using Suc.prems(2) w1(2) by simp
  moreover have "Suc attempt + j \<le> maxRetries" using Suc.prems(3) by simp
  ultimately show ?case using Suc.IH[where w=w1 and attempt="Suc attempt" and lastErr="Some e"] w1 by simp
qed

lemma retryLoop_exhausted:
  "\<forall>i<j. failsTransient (be (calls w + i)) \<Longrightarrow> outcome (be (calls w + j)) = Inl e \<Longrightarrow>
   failsTransient (be (calls w + j)) \<Longrightarrow> attempt + j = maxRetries \<Longrightarrow>
   fst (retryLoop be p model maxRetries attempt lastErr w) = (None, Some e) \<and>
   calls (snd (retryLoop be p model maxRetries attempt lastErr w)) = calls w + Suc j"
proof (induction j arbitrary: attempt lastErr w)
  case 0
  then have le: "attempt \<le> maxRetries" and cls: "isCrash e \<or> ctx_Err (be (calls w)) = None"
    and out: "outcome (be (calls w)) = Inl e"
    by (auto simp: failsTransient_def)
  from retryLoop_again[where be=be and w=w and p=p and model=model and lastErr=lastErr, OF le out cls] obtain w1 where
    w1: "retryLoop be p model maxRetries attempt lastErr w =
           retryLoop be p model maxRetries (Suc attempt) (Some e) w1"
        "calls w1 = Suc (calls w)"
    by blast
  have "\<not> Suc attempt \<le> maxRetries" using "0.prems"(4) by simp
  then show ?case using w1 by (simp add: retryLoop_exit)
next
  case (Suc j)
  from Suc.prems(1) have "failsTransient (be (calls w))" by force
  then obtain e0 where e0: "outcome (be (calls w)) = Inl e0"
      "isCrash e0 \<or> ctx_Err (be (calls w)) = None"
    by (auto simp: failsTransient_def split: sum.splits)
  have le: "attempt \<le> maxRetries" using Suc.prems(4) by simp
  from retryLoop_again[where be=be and w=w and p=p and model=model and lastErr=lastErr, OF le e0] obtain w1 where
    w1: "retryLoop be p model maxRetries attempt lastErr w =
           retryLoop be p model maxRetries (Suc attempt) (Some e0) w1"
        "calls w1 = Suc (calls w)"
    by blast
  have "\<forall>i<j. failsTransient (be (calls w1 + i))" using Suc.prems(1) w1(2) by auto
  moreover have "outcome (be (calls w1 + j)) = Inl e" using Suc.prems(2) w1(2) by simp
  moreover have "failsTransient (be (calls w1 + j))" using Suc.prems(3) w1(2) by simp
  moreover have "Suc attempt + j = maxRetries" using Suc.prems(4) by simp
  ultimately show ?case using Suc.IH[where w=w1 and attempt="Suc attempt" and lastErr="Some e0"] w1 by simp
qed


lemma Generate_retryLoop:
  "Generate be p options w =
     (fst (retryLoop be p (modelFor options w) 3 1 None (acquireOllama w)),
      releaseOllama (snd (retryLoop be p (modelFor options w) 3 1 None (acquireOllama w))))"
  by (simp add: Generate_def generateWithRetry_def modelFor_def acquireOllama_def emit_def
      split: prod.splits option.splits)

lemma calls_gate [simp]:
  "calls (acquireOllama w) = calls w" "calls (releaseOllama w) = calls w"
  by (simp_all add: acquireOllama_def releaseOllama_def emit_def)

lemma Generate_first_ok:
  assumes "outcome (be (calls w)) = Inr r"
  shows "fst (Generate be p options w) = (Some r, None)"
proof -
  have "outcome (be (calls (acquireOllama w))) = Inr r" using assms by simp
  from retryLoop_ok[where be=be and w="acquireOllama w" and attempt=1 and maxRetries=3
      and p=p and model="modelFor options w" and lastErr=None, OF _ this]
  obtain w' where "retryLoop be p (modelFor options w) 3 1 None (acquireOllama w) =
      ((Some r, None), w')"
    by auto
  then show ?thesis by (simp add: Generate_retryLoop)
qed

text \<open>
  Claim C2. Let the calls of \<open>doGenerate\<close> made by one \<open>Generate\<close> be numbered from
  1. If attempts 1 to k - 1 fail with a transient classification and attempt k succeeds,
  for a k of at most 3, \<open>Generate\<close> returns the response of attempt k and has made
  exactly k attempts. If all three attempts fail with a transient classification,
  \<open>Generate\<close> has made exactly 3 attempts and returns the error of the third.
\<close>

theorem Generate_retry_outcomes:
  "(1 \<le> k \<and> k \<le> 3 \<and> (\<forall>i<k - 1. failsTransient (be (calls w + i))) \<and>
      outcome (be (calls w + (k - 1))) = Inr resp \<longrightarrow>
      fst (Generate be p options w) = (Some resp, None) \<and>
      calls (snd (Generate be p options w)) = calls w + k) \<and>
   ((\<forall>i<3. failsTransient (be (calls w + i))) \<and> outcome (be (calls w + 2)) = Inl e \<longrightarrow>
      fst (Generate be p options w) = (None, Some e) \<and>
      calls (snd (Generate be p options w)) = calls w + 3)"
proof (intro conjI impI)
  assume a: "1 \<le> k \<and> k \<le> 3 \<and> (\<forall>i<k - 1. failsTransient (be (calls w + i))) \<and>
      outcome (be (calls w + (k - 1))) = Inr resp"
  let ?w1 = "acquireOllama w"
  from a have "\<forall>i<k - 1. failsTransient (be (calls ?w1 + i))"
    and "outcome (be (calls ?w1 + (k - 1))) = Inr resp" and "1 + (k - 1) \<le> (3::nat)"
    by auto
  from retryLoop_success[OF this, of p "modelFor options w" None] a
  show "fst (Generate be p options w) = (Some resp, None)"
    and "calls (snd (Generate be p options w)) = calls w + k"
    by (simp_all add: Generate_retryLoop)
next
  assume a: "(\<forall>i<3. failsTransient (be (calls w + i))) \<and> outcome (be (calls w + 2)) = Inl e"
  let ?w1 = "acquireOllama w"
  from a have all: "\<And>i. i < 3 \<Longrightarrow> failsTransient (be (calls w + i))" by blast
  have "\<forall>i<2. failsTransient (be (calls ?w1 + i))" using all by simp
  moreover have "outcome (be (calls ?w1 + 2)) = Inl e" using a by simp
  moreover have "failsTransient (be (calls ?w1 + 2))" using all[of 2] by simp
  moreover have "1 + 2 = (3::nat)" by simp
  ultimately have "\<forall>i<2. failsTransient (be (calls ?w1 + i))"
    and "outcome (be (calls ?w1 + 2)) = Inl e" and "failsTransient (be (calls ?w1 + 2))"
    and "1 + 2 = (3::nat)"
    by blast+
  from retryLoop_exhausted[OF this, of p "modelFor options w" None]
  show "fst (Generate be p options w) = (None, Some e)"
    and "calls (snd (Generate be p options w)) = calls w + 3"
    by (simp_all add: Generate_retryLoop)
qed

lemmas run_defs = world0_def answer_def failure_def failsTransient_def isCrash_def

text \<open>
  Both cases at concrete backends: one refused connection followed by an answer (two
  attempts), and a backend that refuses every connection (three attempts).
\<close>

theorem Generate_retry_outcomes_witness:
  "fst (Generate backendRecovers (RawPrompt ''hi'') None world0) =
     (Some \<lparr>resp_Content = ''{}'', resp_Model = ''qwen2.5:7b'', resp_Done = True\<rparr>, None) \<and>
   calls (snd (Generate backendRecovers (RawPrompt ''hi'') None world0)) = 2 \<and>
   fst (Generate backendDown (RawPrompt ''hi'') None world0) =
     (None, Some (Failure ''connection refused'')) \<and>
   calls (snd (Generate backendDown (RawPrompt ''hi'') None world0)) = 3"
  using Generate_retry_outcomes[of 2 backendRecovers world0
      "\<lparr>resp_Content = ''{}'', resp_Model = ''qwen2.5:7b'', resp_Done = True\<rparr>"
      "RawPrompt ''hi''" None "Failure ''connection refused''"]
    Generate_retry_outcomes[of 1 backendDown world0
      "\<lparr>resp_Content = ''{}'', resp_Model = ''qwen2.5:7b'', resp_Done = True\<rparr>"
      "RawPrompt ''hi''" None "Failure ''connection refused''"]
  by (simp add: run_defs backendRecovers_def backendDown_def)

lemma retryLoop_last:
  assumes "attempt \<le> maxRetries"
    and "\<not> failsTransient (be (calls w)) \<or> attempt = maxRetries"
  shows "calls (snd (retryLoop be p model maxRetries attempt lastErr w)) = Suc (calls w)"
proof (cases "outcome (be (calls w))")
  case (Inr resp)
  from retryLoop_ok[where be=be and w=w and p=p and model=model and lastErr=lastErr,
      OF assms(1) Inr]
  show ?thesis by auto
next
  case (Inl e)
  show ?thesis
  proof (cases "isCrash e \<or> ctx_Err (be (calls w)) = None")
    case False
    then obtain ce where "\<not> isCrash e" "ctx_Err (be (calls w)) = Some ce" by auto
    from retryLoop_cancelled[where be=be and w=w and p=p and model=model and lastErr=lastErr,
        OF assms(1) Inl this]
    show ?thesis by auto
  next
    case True
    with Inl have "failsTransient (be (calls w))" by (simp add: failsTransient_def)
    with assms(2) have last: "\<not> Suc attempt \<le> maxRetries" by simp
    from retryLoop_again[where be=be and w=w and p=p and model=model and lastErr=lastErr,
        OF assms(1) Inl True]
    obtain w1 where "retryLoop be p model maxRetries attempt lastErr w =
        retryLoop be p model maxRetries (Suc attempt) (Some e) w1" "calls w1 = Suc (calls w)"
      by blast
    then show ?thesis by (simp add: retryLoop_exit[OF last])
  qed
qed

lemma retryLoop_next:
  assumes "attempt \<le> maxRetries" and "failsTransient (be (calls w))"
  shows "\<exists>e w1. retryLoop be p model maxRetries attempt lastErr w =
                  retryLoop be p model maxRetries (Suc attempt) (Some e) w1 \<and>
                calls w1 = Suc (calls w)"
proof -
  from assms(2) obtain e where e: "outcome (be (calls w)) = Inl e"
      "isCrash e \<or> ctx_Err (be (calls w)) = None"
    by (auto simp: failsTransient_def split: sum.splits)
  from retryLoop_again[where be=be and w=w and p=p and model=model and lastErr=lastErr,
      OF assms(1) e]
  show ?thesis by blast
qed

lemma retryLoop_attemptsMade:
  "calls (snd (retryLoop be p model 3 1 None w)) = calls w + attemptsMade be (calls w)"
proof (cases "failsTransient (be (calls w))")
  case False
  then show ?thesis
    using retryLoop_last[of 1 3 be w p model None] by (simp add: attemptsMade_def)
next
  case first: True
  from retryLoop_next[where be=be and w=w and p=p and model=model and lastErr=None
      and attempt=1 and maxRetries=3, OF _ first]
  obtain e1 w1 where w1: "retryLoop be p model 3 1 None w = retryLoop be p model 3 2 (Some e1) w1"
      "calls w1 = Suc (calls w)"
    by (auto simp: numeral_2_eq_2)
  show ?thesis
  proof (cases "failsTransient (be (Suc (calls w)))")
    case False
    then show ?thesis
      using retryLoop_last[of 2 3 be w1 p model "Some e1"] first w1
      by (simp add: attemptsMade_def)
  next
    case second: True
    from retryLoop_next[where be=be and w=w1 and p=p and model=model and lastErr="Some e1"
        and attempt=2 and maxRetries=3] second w1(2)
    obtain e2 w2 where w2: "retryLoop be p model 3 2 (Some e1) w1 =
        retryLoop be p model 3 3 (Some e2) w2" "calls w2 = Suc (Suc (calls w))"
      by (auto simp: numeral_3_eq_3 numeral_2_eq_2)
    show ?thesis
      using retryLoop_last[of 3 3 be w2 p model "Some e2"] first second w1 w2
      by (simp add: attemptsMade_def)
  qed
qed

text \<open>
  Claim C7, amended. One \<open>Generate\<close> makes the attempts counted by
  \<open>attemptsMade\<close>, and its events are, between taking and freeing the slot, those
  of its attempts in order. The events of attempt number \<open>Suc j\<close> are: a sleep of
  \<open>attempt \<times> 2\<close> seconds unless it is the first attempt, the call, and a sleep of 5
  seconds when the call failed with an error text containing \<open>terminated\<close> or
  \<open>500\<close>. So nothing is slept before the first attempt; every later attempt is
  preceded by its backoff of 4 or 6 seconds, whatever the failure before it; and a
  failure with the crash signature adds 5 seconds before that backoff, also after the
  last attempt.
\<close>

theorem Generate_delays:
  "calls (snd (Generate be p options w)) = calls w + attemptsMade be (calls w) \<and>
   trace (snd (Generate be p options w)) =
     trace w @ [Acquired] @
     concat (map (\<lambda>j. attemptEvents be (modelFor options w) p (Suc j) (calls w + j))
               [0..<attemptsMade be (calls w)]) @
     [Released]"
proof -
  let ?w1 = "acquireOllama w"
  let ?r = "retryLoop be p (modelFor options w) 3 1 None ?w1"
  have c: "calls (snd ?r) = calls w + attemptsMade be (calls w)"
    using retryLoop_attemptsMade[of be p "modelFor options w" ?w1] by simp
  from retryLoop_effect[of be p "modelFor options w" 3 1 None ?w1] obtain k where
    k: "calls (snd ?r) = calls ?w1 + k"
       "trace (snd ?r) = trace ?w1 @
          concat (map (\<lambda>j. attemptEvents be (modelFor options w) p (1 + j) (calls ?w1 + j)) [0..<k])"
    by blast
  from c k(1) have "k = attemptsMade be (calls w)" by simp
  with c k(2) show ?thesis
    by (simp add: Generate_retryLoop acquireOllama_def releaseOllama_def emit_def)
qed

text \<open>
  A backend that always fails with status 500, and one that fails with status 500, then
  refuses the connection, then answers.
\<close>

theorem Generate_delays_witness:
  "trace (snd (Generate backendAllCrash (RawPrompt ''hi'') None world0)) =
     [Acquired,
      Attempt ''qwen2.5:7b'' (RawPrompt ''hi''), Slept 5,
      Slept 4, Attempt ''qwen2.5:7b'' (RawPrompt ''hi''), Slept 5,
      Slept 6, Attempt ''qwen2.5:7b'' (RawPrompt ''hi''), Slept 5,
      Released] \<and>
   trace (snd (Generate backendCrashThenSlow (RawPrompt ''hi'') None world0)) =
     [Acquired,
      Attempt ''qwen2.5:7b'' (RawPrompt ''hi''), Slept 5,
      Slept 4, Attempt ''qwen2.5:7b'' (RawPrompt ''hi''),
      Slept 6, Attempt ''qwen2.5:7b'' (RawPrompt ''hi''),
      Released]"
  using Generate_delays[of backendAllCrash "RawPrompt ''hi''" None world0]
    Generate_delays[of backendCrashThenSlow "RawPrompt ''hi''" None world0]
  by (simp add: attemptsMade_def backendAllCrash_def backendCrashThenSlow_def run_defs
      modelFor_def world_ops upt_rec)

text \<open>
  Claim C7 as stated: after a failure with the crash signature the cool-down of 5
  seconds is the delay before the next attempt, in place of the backoff. In the run,
  5 and then 4 seconds are slept between the first attempt, which failed with status
  500, and the second. The test for the crash signature is also narrower than a status
  of the class 5xx: the text of a status 503 does not pass it.
\<close>

theorem backoff_follows_cool_down:
  "trace (snd (Generate backendCrashThenSlow (RawPrompt ''hi'') None world0)) =
     [Acquired, Attempt ''qwen2.5:7b'' (RawPrompt ''hi''), Slept 5, Slept 4,
      Attempt ''qwen2.5:7b'' (RawPrompt ''hi''), Slept 6,
      Attempt ''qwen2.5:7b'' (RawPrompt ''hi''), Released] \<and>
   trace (snd (Generate backendCrashThenSlow (RawPrompt ''hi'') None world0)) \<noteq>
     [Acquired, Attempt ''qwen2.5:7b'' (RawPrompt ''hi'')] @
     delayInPlace (Failure ''ollama-fehler (500): out of memory'') 2 @
     [Attempt ''qwen2.5:7b'' (RawPrompt ''hi'')] @
     delayInPlace (Failure ''connection refused'') 3 @
     [Attempt ''qwen2.5:7b'' (RawPrompt ''hi''), Released] \<and>
   \<not> isCrash (Failure ''ollama-fehler (503): service unavailable'')"
  by (simp add: Generate_def generateWithRetry_def modelFor_def acquireOllama_def releaseOllama_def
      retryLoop.simps backendCrashThenSlow_def run_defs Sleep_def emit_def doGenerate_def
      delayInPlace_def)

text \<open>
  Claim C3. The claim asks that no attempt follows one during which the context was
  cancelled, whatever the error of that attempt. In the run below the first attempt
  fails with status 500 while the context is cancelled: the loop takes the crash branch,
  which does not read the context, sleeps 5 and 4 seconds and makes a second attempt.
\<close>

theorem cancellation_ignored_after_crash:
  "Generate backendCrashCancelled (RawPrompt ''hi'') None world0 =
     ((None, Some (ContextErr Canceled)),
      world0\<lparr>calls := 2,
             trace := [Acquired, Attempt ''qwen2.5:7b'' (RawPrompt ''hi''), Slept 5, Slept 4,
                       Attempt ''qwen2.5:7b'' (RawPrompt ''hi''), Released]\<rparr>)"
  by (simp add: Generate_def generateWithRetry_def modelFor_def acquireOllama_def releaseOllama_def
      retryLoop.simps backendCrashCancelled_def run_defs Sleep_def emit_def doGenerate_def)


section \<open>Properties of the structured extractor\<close>

lemma Index_first:
  "c \<notin> set pre \<Longrightarrow> Index (pre @ c # rest) c = int (length pre)"
  by (induction pre) (auto simp: Index_def)

lemma LastIndex_last:
  assumes "c \<notin> set post"
  shows "LastIndex (pre @ c # post) c = int (length pre)"
proof -
  have "takeWhile (\<lambda>x. x \<noteq> c) (rev post @ c # rev pre) = rev post"
    using assms by (induction post rule: rev_induct) auto
  then show ?thesis by (simp add: LastIndex_def)
qed

lemma extractJSON_payload:
  assumes "CHR ''{'' \<notin> set pre" and "CHR ''}'' \<notin> set post"
  shows "extractJSON (pre @ [CHR ''{''] @ mid @ [CHR ''}''] @ post) = [CHR ''{''] @ mid @ [CHR ''}'']"
proof -
  let ?text = "pre @ [CHR ''{''] @ mid @ [CHR ''}''] @ post"
  have s: "Index ?text CHR ''{'' = int (length pre)"
    using Index_first[OF assms(1), of "mid @ [CHR ''}''] @ post"] by simp
  have e: "LastIndex ?text CHR ''}'' = int (length pre) + 1 + int (length mid)"
    using LastIndex_last[OF assms(2), of "pre @ [CHR ''{''] @ mid"] by simp
  have n: "nat (2 + int (length mid)) = Suc (Suc (length mid))" by simp
  show ?thesis
    unfolding extractJSON_def s e by (simp add: slice_def Let_def n)
qed

lemma extractJSON_absent:
  "payloadAbsent text \<Longrightarrow> extractJSON text = ''{}''"
  by (auto simp: payloadAbsent_def extractJSON_def Index_def LastIndex_def Let_def)

lemma payload_decomposition:
  assumes "\<not> payloadAbsent text"
  shows "\<exists>pre mid post. text = pre @ [CHR ''{''] @ mid @ [CHR ''}''] @ post \<and>
           CHR ''{'' \<notin> set pre \<and> CHR ''}'' \<notin> set post"
proof -
  from assms have o: "CHR ''{'' \<in> set text" and c: "CHR ''}'' \<in> set text"
    and le: "Index text CHR ''{'' \<le> LastIndex text CHR ''}''"
    by (auto simp: payloadAbsent_def)
  from split_list_first[OF o] obtain pre r where
    pre: "text = pre @ CHR ''{'' # r" "CHR ''{'' \<notin> set pre" by blast
  from split_list_last[OF c] obtain l post where
    post: "text = l @ CHR ''}'' # post" "CHR ''}'' \<notin> set post" by blast
  have "Index text CHR ''{'' = int (length pre)"
    using Index_first[OF pre(2), of r] pre(1) by simp
  moreover have "LastIndex text CHR ''}'' = int (length l)"
    using LastIndex_last[OF post(2), of l] post(1) by simp
  ultimately have len: "length pre \<le> length l" using le by simp
  have "pre @ CHR ''{'' # r = l @ CHR ''}'' # post" using pre(1) post(1) by simp
  then obtain us where "pre @ us = l \<and> CHR ''{'' # r = us @ CHR ''}'' # post \<or>
      pre = l @ us \<and> us @ CHR ''{'' # r = CHR ''}'' # post"
    by (auto simp: append_eq_append_conv2)
  then have "\<exists>mid. l = pre @ CHR ''{'' # mid"
  proof
    assume a: "pre @ us = l \<and> CHR ''{'' # r = us @ CHR ''}'' # post"
    then have "us \<noteq> []" by auto
    then obtain u mid where "us = u # mid" by (cases us) auto
    with a show ?thesis by auto
  next
    assume a: "pre = l @ us \<and> us @ CHR ''{'' # r = CHR ''}'' # post"
    with len have "us = []" by simp
    with a show ?thesis by simp
  qed
  then obtain mid where "l = pre @ CHR ''{'' # mid" by blast
  with post pre(2) show ?thesis by (intro exI[of _ pre] exI[of _ mid] exI[of _ post]) simp
qed

text \<open>
  Claim C5. For every text: when it consists of prose without an opening delimiter, a
  payload from an opening to a closing delimiter, and prose without a closing delimiter,
  \<open>extractJSON\<close> returns exactly the payload, and decoding the text gives what
  decoding the payload alone gives. When a delimiter is missing or the first opening
  delimiter comes after the last closing one, \<open>extractJSON\<close> returns the empty object
  and the decoder is run on that; with a decoder that accepts the empty object as no
  topics, as \<open>encoding/json\<close> does, the result is the empty list and no error. Every
  text is of one of the two kinds.
\<close>

theorem extractJSON_recovers_payload:
  "(\<forall>pre mid post.
      text = pre @ [CHR ''{''] @ mid @ [CHR ''}''] @ post \<and> CHR ''{'' \<notin> set pre \<and>
      CHR ''}'' \<notin> set post \<longrightarrow>
      extractJSON text = [CHR ''{''] @ mid @ [CHR ''}''] \<and>
      parseTopicsFromResponse lib text =
        parseTopicsFromResponse lib ([CHR ''{''] @ mid @ [CHR ''}''])) \<and>
   (payloadAbsent text \<longrightarrow>
      extractJSON text = ''{}'' \<and>
      parseTopicsFromResponse lib text = parseTopicsFromResponse lib ''{}'' \<and>
      (UnmarshalTopics lib ''{}'' = Inr [] \<longrightarrow> parseTopicsFromResponse lib text = Inr [])) \<and>
   (payloadAbsent text \<or>
    (\<exists>pre mid post. text = pre @ [CHR ''{''] @ mid @ [CHR ''}''] @ post \<and>
       CHR ''{'' \<notin> set pre \<and> CHR ''}'' \<notin> set post))"
proof (intro conjI allI impI)
  fix pre mid post
  assume a: "text = pre @ [CHR ''{''] @ mid @ [CHR ''}''] @ post \<and> CHR ''{'' \<notin> set pre \<and>
      CHR ''}'' \<notin> set post"
  then show e: "extractJSON text = [CHR ''{''] @ mid @ [CHR ''}'']"
    using extractJSON_payload by blast
  have "extractJSON ([CHR ''{''] @ mid @ [CHR ''}'']) = [CHR ''{''] @ mid @ [CHR ''}'']"
    using extractJSON_payload[of "[]" "[]" mid] by simp
  with e show "parseTopicsFromResponse lib text =
      parseTopicsFromResponse lib ([CHR ''{''] @ mid @ [CHR ''}''])"
    by (simp add: parseTopicsFromResponse_def)
next
  assume a: "payloadAbsent text"
  then show e: "extractJSON text = ''{}''" by (rule extractJSON_absent)
  have b: "extractJSON ''{}'' = ''{}''" using extractJSON_payload[of "[]" "[]" "[]"] by simp
  with e show "parseTopicsFromResponse lib text = parseTopicsFromResponse lib ''{}''"
    by (simp add: parseTopicsFromResponse_def)
  assume "UnmarshalTopics lib ''{}'' = Inr []"
  with e show "parseTopicsFromResponse lib text = Inr []"
    by (simp add: parseTopicsFromResponse_def)
next
  show "payloadAbsent text \<or>
    (\<exists>pre mid post. text = pre @ [CHR ''{''] @ mid @ [CHR ''}''] @ post \<and>
       CHR ''{'' \<notin> set pre \<and> CHR ''}'' \<notin> set post)"
    using payload_decomposition by blast
qed


text \<open>A payload between two sentences, and a text whose delimiters are in the wrong order.\<close>

theorem extractJSON_recovers_payload_witness:
  \<open>extractJSON ''Sure! {"topics": [{"name": "Sets"}]} Bye.'' =
     ''{"topics": [{"name": "Sets"}]}'' \<and>
   parseTopicsFromResponse toyLib ''Sure! {"topics": [{"name": "Sets"}]} Bye.'' =
     Inr [newTopic \<lparr>raw_Name = ''Sets'', raw_Description = [], raw_Difficulty = 0,
                    raw_EstMinutes = 0\<rparr>] \<and>
   payloadAbsent ''} no payload {'' \<and> extractJSON ''} no payload {'' = ''{}'' \<and>
   parseTopicsFromResponse toyLib ''} no payload {'' = Inr []\<close>
proof -
  let ?T = \<open>''Sure! {"topics": [{"name": "Sets"}]} Bye.''\<close>
  let ?mid = \<open>''"topics": [{"name": "Sets"}]''\<close>
  have h: "?T = ''Sure! '' @ [CHR ''{''] @ ?mid @ [CHR ''}''] @ '' Bye.'' \<and>
           CHR ''{'' \<notin> set ''Sure! '' \<and> CHR ''}'' \<notin> set '' Bye.''"
    by simp
  have a: "payloadAbsent ''} no payload {''"
    by (simp add: payloadAbsent_def Index_def LastIndex_def)
  have u: "UnmarshalTopics toyLib ''{}'' = Inr []" by (simp add: toyLib_def)
  have p: "parseTopicsFromResponse toyLib ([CHR ''{''] @ ?mid @ [CHR ''}'']) =
     Inr [newTopic \<lparr>raw_Name = ''Sets'', raw_Description = [], raw_Difficulty = 0,
                    raw_EstMinutes = 0\<rparr>]"
    by (simp add: parseTopicsFromResponse_def extractJSON_def Index_def LastIndex_def slice_def
        toyLib_def)
  note thm1 = extractJSON_recovers_payload[of ?T toyLib, THEN conjunct1, rule_format, OF h]
  note thm2 = extractJSON_recovers_payload[of "''} no payload {''" toyLib, THEN conjunct2,
      THEN conjunct1, rule_format, OF a]
  from thm1 p have "extractJSON ?T = [CHR ''{''] @ ?mid @ [CHR ''}'']"
    and "parseTopicsFromResponse toyLib ?T =
     Inr [newTopic \<lparr>raw_Name = ''Sets'', raw_Description = [], raw_Difficulty = 0,
                    raw_EstMinutes = 0\<rparr>]"
    by simp_all
  moreover from thm2 u have "extractJSON ''} no payload {'' = ''{}''"
    and "parseTopicsFromResponse toyLib ''} no payload {'' = Inr []"
    by blast+
  ultimately show ?thesis using a by simp
qed

section \<open>Properties of deduplication\<close>

lemma dedupLoop_result:
  "dedupLoop key xs seen result = result @ dedupLoop key xs seen []"
proof (induction xs arbitrary: seen result)
  case Nil
  show ?case by simp
next
  case (Cons x xs)
  define seen' where "seen' = seen(key x := True)"
  have "dedupLoop key xs seen' (result @ [x]) = (result @ [x]) @ dedupLoop key xs seen' []"
    by (rule Cons.IH)
  moreover have "dedupLoop key xs seen' [x] = [x] @ dedupLoop key xs seen' []"
    by (rule Cons.IH)
  moreover have "dedupLoop key xs seen result = result @ dedupLoop key xs seen []"
    by (rule Cons.IH)
  ultimately show ?case by (simp add: seen'_def[symmetric])
qed

lemma dedupLoop_Cons:
  "dedupLoop key (x # xs) seen [] =
     (if seen (key x) then dedupLoop key xs seen []
      else x # dedupLoop key xs (seen(key x := True)) [])"
  using dedupLoop_result[of key xs "seen(key x := True)" "[x]"] by simp

lemma dedupLoop_subseq: "subseq (dedupLoop key xs seen []) xs"
proof (induction xs arbitrary: seen)
  case Nil
  show ?case by simp
next
  case (Cons x xs)
  define seen' where "seen' = seen(key x := True)"
  have "subseq (dedupLoop key xs seen []) xs" and "subseq (dedupLoop key xs seen' []) xs"
    by (rule Cons.IH)+
  then show ?case
    by (auto simp: dedupLoop_Cons seen'_def[symmetric] simp del: dedupLoop.simps(2))
qed

lemma dedupLoop_unseen:
  "y \<in> set (dedupLoop key xs seen []) \<Longrightarrow> \<not> seen (key y)"
proof (induction xs arbitrary: seen)
  case Nil
  then show ?case by simp
next
  case (Cons x xs)
  show ?case
  proof (cases "seen (key x)")
    case True
    with Cons.prems have "y \<in> set (dedupLoop key xs seen [])"
      by (simp add: dedupLoop_Cons del: dedupLoop.simps(2))
    then show ?thesis by (rule Cons.IH)
  next
    case False
    with Cons.prems have "y = x \<or> y \<in> set (dedupLoop key xs (seen(key x := True)) [])"
      by (simp add: dedupLoop_Cons del: dedupLoop.simps(2))
    then show ?thesis
    proof
      assume "y = x"
      with False show ?thesis by simp
    next
      assume "y \<in> set (dedupLoop key xs (seen(key x := True)) [])"
      then have "\<not> (seen(key x := True)) (key y)" by (rule Cons.IH)
      then show ?thesis by (simp split: if_splits)
    qed
  qed
qed

lemma dedupLoop_distinct: "distinct (map key (dedupLoop key xs seen []))"
proof (induction xs arbitrary: seen)
  case Nil
  show ?case by simp
next
  case (Cons x xs)
  define seen' where "seen' = seen(key x := True)"
  have "key x \<noteq> key y" if "y \<in> set (dedupLoop key xs seen' [])" for y
    using dedupLoop_unseen[OF that] by (auto simp: seen'_def)
  then have "key x \<notin> key ` set (dedupLoop key xs seen' [])" by blast
  moreover have "distinct (map key (dedupLoop key xs seen []))"
    and "distinct (map key (dedupLoop key xs seen' []))"
    by (rule Cons.IH)+
  ultimately show ?case
    by (simp add: dedupLoop_Cons seen'_def[symmetric] del: dedupLoop.simps(2))
qed

lemma dedupLoop_keys:
  "key ` set (dedupLoop key xs seen []) = {k \<in> key ` set xs. \<not> seen k}"
proof (induction xs arbitrary: seen)
  case Nil
  show ?case by simp
next
  case (Cons x xs)
  show ?case
  proof (cases "seen (key x)")
    case True
    have "{k \<in> key ` set (x # xs). \<not> seen k} = {k \<in> key ` set xs. \<not> seen k}"
      using True by auto
    with Cons.IH[of seen] True show ?thesis
      by (simp add: dedupLoop_Cons del: dedupLoop.simps(2))
  next
    case False
    define seen' where "seen' = seen(key x := True)"
    have s: "seen' k = (k = key x \<or> seen k)" for k by (simp add: seen'_def)
    have "{k \<in> key ` set (x # xs). \<not> seen k} = insert (key x) {k \<in> key ` set xs. \<not> seen' k}"
      using False by (auto simp: s)
    with Cons.IH[of seen'] False show ?thesis
      by (simp add: dedupLoop_Cons seen'_def[symmetric] del: dedupLoop.simps(2))
  qed
qed

lemma dedupLoop_first:
  "x \<in> set (dedupLoop key xs seen []) \<Longrightarrow> find (\<lambda>y. key y = key x) xs = Some x"
proof (induction xs arbitrary: seen)
  case Nil
  then show ?case by simp
next
  case (Cons a xs)
  show ?case
  proof (cases "seen (key a)")
    case True
    with Cons.prems have in_rest: "x \<in> set (dedupLoop key xs seen [])"
      by (simp add: dedupLoop_Cons del: dedupLoop.simps(2))
    then have "\<not> seen (key x)" by (rule dedupLoop_unseen)
    with True have "key a \<noteq> key x" by auto
    with Cons.IH[OF in_rest] show ?thesis by simp
  next
    case False
    with Cons.prems have "x = a \<or> x \<in> set (dedupLoop key xs (seen(key a := True)) [])"
      by (simp add: dedupLoop_Cons del: dedupLoop.simps(2))
    then show ?thesis
    proof
      assume "x = a"
      then show ?thesis by simp
    next
      assume in_rest: "x \<in> set (dedupLoop key xs (seen(key a := True)) [])"
      then have "\<not> (seen(key a := True)) (key x)" by (rule dedupLoop_unseen)
      then have "key a \<noteq> key x" by auto
      with Cons.IH[OF in_rest] show ?thesis by simp
    qed
  qed
qed

lemma dedupLoop_keepsFirstOccurrences:
  "keepsFirstOccurrences key xs (dedupLoop key xs (\<lambda>_. False) [])"
  unfolding keepsFirstOccurrences_def
  using dedupLoop_subseq[of key xs] dedupLoop_distinct[of key xs] dedupLoop_keys[of key xs "\<lambda>_. False"]
    dedupLoop_first[of _ key xs "\<lambda>_. False"]
  by auto

text \<open>
  Claim C8, amended. Documents are deduplicated by their name as it is (case matters),
  topics by their lower-cased name. In both, the output is the input with elements left
  out (so the order of the survivors is that of the input), no key occurs twice, every
  key of the input survives, and each survivor is the first element of the input with
  its key.
\<close>

theorem deduplicate_keeps_first_occurrences:
  "keepsFirstOccurrences doc_Name docs (deduplicateDocuments docs) \<and>
   keepsFirstOccurrences (\<lambda>t. ToLower lib (topic_Name t)) topics (deduplicateTopics lib topics)"
  by (simp add: deduplicateDocuments_def deduplicateTopics_def dedupLoop_keepsFirstOccurrences)

text \<open>
  Three documents, two of them with the same name, and three topics, two of them with
  names equal up to case.
\<close>

theorem deduplicate_keeps_first_occurrences_witness:
  "keepsFirstOccurrences doc_Name
     [mkDoc ''A.pdf'' ''x'', mkDoc ''a.pdf'' ''y'', mkDoc ''A.pdf'' ''z'']
     [mkDoc ''A.pdf'' ''x'', mkDoc ''a.pdf'' ''y''] \<and>
   keepsFirstOccurrences (\<lambda>t. asciiLower (topic_Name t))
     [mkTopic ''Sets'', mkTopic ''Maps'', mkTopic ''SETS''] [mkTopic ''Sets'', mkTopic ''Maps'']"
proof -
  have d: "deduplicateDocuments [mkDoc ''A.pdf'' ''x'', mkDoc ''a.pdf'' ''y'', mkDoc ''A.pdf'' ''z'']
             = [mkDoc ''A.pdf'' ''x'', mkDoc ''a.pdf'' ''y'']"
    by (simp add: deduplicateDocuments_def mkDoc_def)
  have t: "deduplicateTopics toyLib [mkTopic ''Sets'', mkTopic ''Maps'', mkTopic ''SETS'']
             = [mkTopic ''Sets'', mkTopic ''Maps'']"
    by (simp add: deduplicateTopics_def mkTopic_def newTopic_def toyLib_def asciiLower_def)
  have l: "ToLower toyLib = asciiLower" by (simp add: toyLib_def)
  show ?thesis
    using deduplicate_keeps_first_occurrences[of
        "[mkDoc ''A.pdf'' ''x'', mkDoc ''a.pdf'' ''y'', mkDoc ''A.pdf'' ''z'']" toyLib
        "[mkTopic ''Sets'', mkTopic ''Maps'', mkTopic ''SETS'']"]
    unfolding d t l by simp
qed

text \<open>
  Claim C8 as stated, for documents: deduplication by the case-normalized name. Two
  documents whose names differ only in case are both kept.
\<close>

theorem documents_deduplicated_case_sensitively:
  "\<not> keepsFirstOccurrences (\<lambda>d. asciiLower (doc_Name d))
       [mkDoc ''A.pdf'' ''x'', mkDoc ''a.pdf'' ''y'']
       (deduplicateDocuments [mkDoc ''A.pdf'' ''x'', mkDoc ''a.pdf'' ''y''])"
  by (simp add: keepsFirstOccurrences_def deduplicateDocuments_def mkDoc_def asciiLower_def)

section \<open>Properties of the prioritization\<close>

lemma sortInner_step:
  "j < length ts \<Longrightarrow>
   sortInner pr ts i j =
     sortInner pr (if pr (ts ! j) < pr (ts ! i) then ts[i := ts ! j, j := ts ! i] else ts) i (Suc j)"
  by (simp add: sortInner.simps[of pr ts i j] Let_def)

lemma sortInner_exit: "\<not> j < length ts \<Longrightarrow> sortInner pr ts i j = ts"
  by (simp add: sortInner.simps[of pr ts i j])

lemma mset_sortInner:
  "i < length ts \<Longrightarrow> mset (sortInner pr ts i j) = mset ts"
proof (induction pr ts i j rule: sortInner.induct)
  case (1 pr ts i j)
  show ?case
  proof (cases "j < length ts")
    case True
    let ?ts' = "if pr (ts ! j) < pr (ts ! i) then ts[i := ts ! j, j := ts ! i] else ts"
    have "mset (sortInner pr ?ts' i (Suc j)) = mset ?ts'"
      using "1.IH"[OF True refl refl] "1.prems" by simp
    moreover have "mset ?ts' = mset ts"
      using mset_swap[of j ts i] True "1.prems" by simp
    ultimately show ?thesis by (simp add: sortInner_step[OF True])
  next
    case False
    then show ?thesis by (simp add: sortInner_exit)
  qed
qed

lemma take_sortInner:
  "i < j \<Longrightarrow> take i (sortInner pr ts i j) = take i ts"
proof (induction pr ts i j rule: sortInner.induct)
  case (1 pr ts i j)
  show ?case
  proof (cases "j < length ts")
    case True
    let ?ts' = "if pr (ts ! j) < pr (ts ! i) then ts[i := ts ! j, j := ts ! i] else ts"
    have "take i (sortInner pr ?ts' i (Suc j)) = take i ?ts'"
      using "1.IH"[OF True refl refl] "1.prems" by simp
    moreover have "take i ?ts' = take i ts" using "1.prems" by simp
    ultimately show ?thesis by (simp add: sortInner_step[OF True])
  next
    case False
    then show ?thesis by (simp add: sortInner_exit)
  qed
qed

lemma mset_drop_sortInner:
  "i < j \<Longrightarrow> i < length ts \<Longrightarrow> mset (drop i (sortInner pr ts i j)) = mset (drop i ts)"
proof -
  assume a: "i < j" "i < length ts"
  let ?r = "sortInner pr ts i j"
  have "mset (take i ?r) + mset (drop i ?r) = mset (take i ts) + mset (drop i ts)"
    using mset_sortInner[OF a(2), of pr j]
    by (metis append_take_drop_id mset_append)
  then show ?thesis by (simp add: take_sortInner[OF a(1)])
qed

lemma sortInner_min:
  "i < j \<Longrightarrow> i < length ts \<Longrightarrow> (\<forall>k. i < k \<and> k < j \<longrightarrow> pr (ts ! i) \<le> pr (ts ! k)) \<Longrightarrow>
   k < length ts \<Longrightarrow> i < k \<Longrightarrow> pr (sortInner pr ts i j ! i) \<le> pr (sortInner pr ts i j ! k)"
proof (induction pr ts i j rule: sortInner.induct)
  case (1 pr ts i j)
  show ?case
  proof (cases "j < length ts")
    case True
    let ?ts' = "if pr (ts ! j) < pr (ts ! i) then ts[i := ts ! j, j := ts ! i] else ts"
    have inv: "\<forall>k. i < k \<and> k < Suc j \<longrightarrow> pr (?ts' ! i) \<le> pr (?ts' ! k)"
    proof (intro allI impI)
      fix k assume k: "i < k \<and> k < Suc j"
      show "pr (?ts' ! i) \<le> pr (?ts' ! k)"
      proof (cases "pr (ts ! j) < pr (ts ! i)")
        case swap: True
        have i': "?ts' ! i = ts ! j" using swap "1.prems"(1,2) True by simp
        show ?thesis
        proof (cases "k = j")
          case True
          then have "?ts' ! k = ts ! i" using swap \<open>j < length ts\<close> by simp
          with i' swap show ?thesis by simp
        next
          case False
          with k have kj: "k < j" by simp
          then have "?ts' ! k = ts ! k" using swap k by simp
          moreover have "pr (ts ! i) \<le> pr (ts ! k)" using "1.prems"(3) k kj by simp
          ultimately show ?thesis using i' swap by simp
        qed
      next
        case noswap: False
        show ?thesis
        proof (cases "k = j")
          case True
          with noswap show ?thesis by simp
        next
          case False
          with k have "k < j" by simp
          with "1.prems"(3) k noswap show ?thesis by simp
        qed
      qed
    qed
    have "pr (sortInner pr ?ts' i (Suc j) ! i) \<le> pr (sortInner pr ?ts' i (Suc j) ! k)"
      using "1.IH"[OF True refl refl _ _ inv] "1.prems" by simp
    then show ?thesis by (simp add: sortInner_step[OF True])
  next
    case False
    with "1.prems" show ?thesis by (simp add: sortInner_exit)
  qed
qed

lemma settled_step:
  assumes "settled pr ts i" and "i < length ts"
  shows "settled pr (sortInner pr ts i (Suc i)) (Suc i)"
  unfolding settled_def
proof (intro allI impI)
  fix a b
  let ?r = "sortInner pr ts i (Suc i)"
  assume ab: "a < Suc i \<and> a < b \<and> b < length ?r"
  then have b: "b < length ts" by simp
  show "pr (?r ! a) \<le> pr (?r ! b)"
  proof (cases "a = i")
    case True
    then show ?thesis
      using sortInner_min[of i "Suc i" ts pr b] assms(2) ab b by simp
  next
    case False
    with ab have a: "a < i" by simp
    have tk: "take i ?r = take i ts" by (rule take_sortInner) simp
    have ra: "?r ! a = ts ! a" using a tk by (metis nth_take)
    show ?thesis
    proof (cases "b < i")
      case True
      then have "?r ! b = ts ! b" using tk by (metis nth_take)
      with ra assms(1) a ab b show ?thesis by (simp add: settled_def)
    next
      case False
      then have "?r ! b = drop i ?r ! (b - i)" using b by simp
      moreover have "b - i < length (drop i ?r)" using b False by simp
      ultimately have "?r ! b \<in> set (drop i ?r)" by (metis nth_mem)
      also have "set (drop i ?r) = set (drop i ts)"
        using mset_drop_sortInner[of i "Suc i" ts pr] assms(2) by (metis lessI mset_eq_setD)
      finally obtain c where c: "c < length (drop i ts)" "?r ! b = drop i ts ! c"
        by (metis in_set_conv_nth)
      then have "?r ! b = ts ! (i + c)" "i + c < length ts" by auto
      moreover have "a < i + c" using a by simp
      ultimately show ?thesis using ra assms(1) a by (simp add: settled_def)
    qed
  qed
qed

lemma sortOuter_step:
  "i < length ts \<Longrightarrow> sortOuter pr ts i = sortOuter pr (sortInner pr ts i (Suc i)) (Suc i)"
  by (simp add: sortOuter.simps[of pr ts i])

lemma sortOuter_exit: "\<not> i < length ts \<Longrightarrow> sortOuter pr ts i = ts"
  by (simp add: sortOuter.simps[of pr ts i])

lemma mset_sortOuter: "mset (sortOuter pr ts i) = mset ts"
proof (induction pr ts i rule: sortOuter.induct)
  case (1 pr ts i)
  show ?case
  proof (cases "i < length ts")
    case True
    with "1.IH"[OF True] show ?thesis
      by (simp add: sortOuter_step mset_sortInner)
  next
    case False
    then show ?thesis by (simp add: sortOuter_exit)
  qed
qed

lemma sorted_sortOuter:
  "settled pr ts i \<Longrightarrow> sorted (map pr (sortOuter pr ts i))"
proof (induction pr ts i rule: sortOuter.induct)
  case (1 pr ts i)
  show ?case
  proof (cases "i < length ts")
    case True
    from "1.IH"[OF True settled_step[OF "1.prems" True]] show ?thesis
      by (simp add: sortOuter_step[OF True])
  next
    case False
    with "1.prems" have "\<forall>a b. a < b \<and> b < length ts \<longrightarrow> pr (ts ! a) \<le> pr (ts ! b)"
      by (auto simp: settled_def)
    then have "sorted (map pr ts)" by (simp add: sorted_iff_nth_mono_less)
    with False show ?thesis by (simp add: sortOuter_exit)
  qed
qed


lemma priorityMapLoop_None:
  "priorityMapLoop lib names i m k = None \<longleftrightarrow> m k = None \<and> k \<notin> ToLower lib ` set names"
  by (induction names arbitrary: i m) auto

lemma priorityMapLoop_Some:
  "priorityMapLoop lib names i m k = Some r \<Longrightarrow>
   m k = Some r \<or> (i \<le> r \<and> r < i + length names \<and> ToLower lib (names ! (r - i)) = k)"
proof (induction names arbitrary: i m)
  case Nil
  then show ?case by simp
next
  case (Cons name names)
  define m' where "m' = m(ToLower lib name \<mapsto> i)"
  have "priorityMapLoop lib names (Suc i) m' k = Some r"
    using Cons.prems by (simp add: m'_def)
  then have "m' k = Some r \<or>
        (Suc i \<le> r \<and> r < Suc i + length names \<and> ToLower lib (names ! (r - Suc i)) = k)"
    by (rule Cons.IH)
  then show ?case
  proof
    assume "m' k = Some r"
    then have "m k = Some r \<or> (r = i \<and> k = ToLower lib name)"
      by (auto simp: m'_def split: if_splits)
    then show ?thesis by auto
  next
    assume a: "Suc i \<le> r \<and> r < Suc i + length names \<and> ToLower lib (names ! (r - Suc i)) = k"
    then have "(name # names) ! (r - i) = names ! (r - Suc i)"
      by (metis Suc_diff_le diff_Suc_Suc nth_Cons_Suc)
    with a show ?thesis by auto
  qed
qed

lemma rankOf_None:
  "rankOf lib priority t = None \<longleftrightarrow> ToLower lib (topic_Name t) \<notin> ToLower lib ` set priority"
  by (simp add: rankOf_def priorityMapLoop_None)

lemma rankOf_Some:
  "rankOf lib priority t = Some r \<Longrightarrow>
   r < length priority \<and> ToLower lib (priority ! r) = ToLower lib (topic_Name t)"
  using priorityMapLoop_Some[of lib priority 0 Map.empty "ToLower lib (topic_Name t)" r]
  by (simp add: rankOf_def)

lemma priorityOf_rankOf:
  "priorityOf lib (priorityMapLoop lib priority 0 Map.empty) t =
     (case rankOf lib priority t of Some r \<Rightarrow> r | None \<Rightarrow> 999)"
  by (simp add: priorityOf_def rankOf_def)

lemma sortByPriority_mset: "mset (sortByPriority lib priority topics) = mset topics"
  by (simp add: sortByPriority_def mset_sortOuter)

lemma sortByPriority_rankedFirst:
  assumes "length priority \<le> 999"
  shows "rankedFirst lib priority (sortByPriority lib priority topics)"
  unfolding rankedFirst_def
proof (intro allI impI)
  fix j i
  let ?out = "sortByPriority lib priority topics"
  let ?pr = "priorityOf lib (priorityMapLoop lib priority 0 Map.empty)"
  assume j: "j < length ?out" and i: "i < j"
  have "sorted (map ?pr ?out)"
    unfolding sortByPriority_def by (rule sorted_sortOuter) (simp add: settled_def)
  then have le: "?pr (?out ! i) \<le> ?pr (?out ! j)"
    using i j by (simp add: sorted_iff_nth_mono_less)
  show "case rankOf lib priority (?out ! j) of
          None \<Rightarrow> True
        | Some rj \<Rightarrow>
            (case rankOf lib priority (?out ! i) of None \<Rightarrow> False | Some ri \<Rightarrow> ri \<le> rj)"
  proof (cases "rankOf lib priority (?out ! j)")
    case None
    then show ?thesis by simp
  next
    case (Some rj)
    then have "rj < 999" using rankOf_Some[OF Some] assms by simp
    with le Some show ?thesis
      by (cases "rankOf lib priority (?out ! i)") (simp_all add: priorityOf_rankOf)
  qed
qed

lemma SetModel_frame [simp]:
  "calls (SetModel model w) = calls w" "trace (SetModel model w) = trace w"
  "baseURL (SetModel model w) = baseURL w"
  by (simp_all add: SetModel_def)

lemma prioritizeWithExams_ranked:
  assumes "examDocs \<noteq> []" and "topics \<noteq> []"
    and "outcome (be (calls w)) = Inr r"
    and "priorityJSON (resp_Content r) = Some jsonStr"
    and "UnmarshalPriority lib jsonStr = Inr priority"
  shows "fst (prioritizeWithExams lib config be topics examDocs w) =
           Returns (sortByPriority lib priority topics)"
proof -
  let ?p = "PriorityPrompt (Join (map topic_Name topics) '', '') (examContentLoop examDocs [])"
  have G: "\<exists>w2. Generate be ?p (Some priorityOptions) w' = ((Some r, None), w2)"
    if "calls w' = calls w" for w'
  proof -
    have "fst (Generate be ?p (Some priorityOptions) w') = (Some r, None)"
      using Generate_first_ok[of be w' r ?p "Some priorityOptions"] assms(3) that
      by simp
    then show ?thesis by (metis prod.collapse)
  qed
  show ?thesis
  proof (cases "FastModel config = []")
    case True
    from G[of w] obtain w2 where "Generate be ?p (Some priorityOptions) w = ((Some r, None), w2)"
      by auto
    with True assms show ?thesis
      by (simp add: prioritizeWithExams_def Let_def)
  next
    case False
    from G[of "SetModel (FastModel config) w"] obtain w2 where
      "Generate be ?p (Some priorityOptions) (SetModel (FastModel config) w) =
         ((Some r, None), w2)"
      by auto
    with False assms show ?thesis
      by (simp add: prioritizeWithExams_def Let_def)
  qed
qed

lemma priorityMapLoop_last:
  "priorityMapLoop lib names i m k = Some r \<Longrightarrow>
   (m k = Some r \<and> k \<notin> ToLower lib ` set names) \<or>
   (i \<le> r \<and> r < i + length names \<and> ToLower lib (names ! (r - i)) = k \<and>
    (\<forall>j. r - i < j \<and> j < length names \<longrightarrow> ToLower lib (names ! j) \<noteq> k))"
proof (induction names arbitrary: i m)
  case Nil
  then show ?case by simp
next
  case (Cons name names)
  define m' where "m' = m(ToLower lib name \<mapsto> i)"
  have "priorityMapLoop lib names (Suc i) m' k = Some r"
    using Cons.prems by (simp add: m'_def)
  then have "(m' k = Some r \<and> k \<notin> ToLower lib ` set names) \<or>
        (Suc i \<le> r \<and> r < Suc i + length names \<and> ToLower lib (names ! (r - Suc i)) = k \<and>
         (\<forall>j. r - Suc i < j \<and> j < length names \<longrightarrow> ToLower lib (names ! j) \<noteq> k))"
    by (rule Cons.IH)
  then show ?case
  proof
    assume a: "m' k = Some r \<and> k \<notin> ToLower lib ` set names"
    show ?thesis
    proof (cases "k = ToLower lib name")
      case True
      with a have r: "r = i" by (simp add: m'_def)
      have "ToLower lib ((name # names) ! j) \<noteq> k" if "0 < j" "j < length (name # names)" for j
      proof -
        from that obtain j' where "j = Suc j'" "j' < length names" by (cases j) auto
        then have "(name # names) ! j \<in> set names" by simp
        with a show ?thesis by blast
      qed
      with True r show ?thesis by simp
    next
      case False
      with a have "m k = Some r" by (simp add: m'_def)
      with a False show ?thesis by auto
    qed
  next
    assume a: "Suc i \<le> r \<and> r < Suc i + length names \<and>
        ToLower lib (names ! (r - Suc i)) = k \<and>
        (\<forall>j. r - Suc i < j \<and> j < length names \<longrightarrow> ToLower lib (names ! j) \<noteq> k)"
    then have "Suc i \<le> r" by blast
    then have s: "r - i = Suc (r - Suc i)" by arith
    have "ToLower lib ((name # names) ! j) \<noteq> k"
      if "r - i < j" "j < length (name # names)" for j
    proof -
      from that s obtain j' where j': "j = Suc j'" "r - Suc i < j'" "j' < length names"
        by (cases j) auto
      with a show ?thesis by simp
    qed
    moreover have "ToLower lib ((name # names) ! (r - i)) = k" using a s by simp
    ultimately show ?thesis using a by simp
  qed
qed

lemma rankOf_last:
  "rankOf lib priority t = Some rk \<longleftrightarrow> lastPosition lib priority t rk"
proof
  assume "rankOf lib priority t = Some rk"
  from priorityMapLoop_last[OF this[unfolded rankOf_def]]
  show "lastPosition lib priority t rk" by (simp add: lastPosition_def)
next
  assume l: "lastPosition lib priority t rk"
  then have "ToLower lib (topic_Name t) \<in> ToLower lib ` set priority"
    unfolding lastPosition_def by (metis imageI nth_mem)
  then obtain rk' where r: "rankOf lib priority t = Some rk'"
    using rankOf_None[of lib priority t] by auto
  from priorityMapLoop_last[OF this[unfolded rankOf_def]]
  have l': "lastPosition lib priority t rk'" by (simp add: lastPosition_def)
  have "rk' = rk"
  proof (rule ccontr)
    assume "rk' \<noteq> rk"
    then consider "rk < rk'" | "rk' < rk" by linarith
    then show False
    proof cases
      case 1
      with l l' show False unfolding lastPosition_def by blast
    next
      case 2
      with l l' show False unfolding lastPosition_def by blast
    qed
  qed
  with r show "rankOf lib priority t = Some rk" by simp
qed

lemma prioritizeWithExams_sorts:
  assumes "examDocs \<noteq> []" and "topics \<noteq> []"
    and "fst (priorityCall config be topics examDocs w) = (Some r, None)"
    and "priorityJSON (resp_Content r) = Some jsonStr"
    and "UnmarshalPriority lib jsonStr = Inr priority"
  shows "fst (prioritizeWithExams lib config be topics examDocs w) =
           Returns (sortByPriority lib priority topics)"
proof -
  obtain w2 where g: "priorityCall config be topics examDocs w = ((Some r, None), w2)"
    using assms(3) by (metis prod.collapse)
  show ?thesis
  proof (cases "FastModel config = []")
    case True
    with g have "Generate be
       (PriorityPrompt (Join (map topic_Name topics) '', '') (examContentLoop examDocs []))
       (Some priorityOptions) w = ((Some r, None), w2)"
      by (simp add: priorityCall_def)
    with True assms show ?thesis
      by (simp add: prioritizeWithExams_def Let_def)
  next
    case False
    with g have "Generate be
       (PriorityPrompt (Join (map topic_Name topics) '', '') (examContentLoop examDocs []))
       (Some priorityOptions) (SetModel (FastModel config) w) = ((Some r, None), w2)"
      by (simp add: priorityCall_def)
    with False assms show ?thesis
      by (simp add: prioritizeWithExams_def Let_def)
  qed
qed

text \<open>
  Claim C4, amended. When the prioritization call succeeds, at whichever attempt, and
  its answer decodes to a ranking of at most 999 names, \<open>prioritizeWithExams\<close>
  returns a rearrangement of the topics in which every topic of the ranking stands
  before every topic outside it, and the topics of the ranking stand in ascending rank.
  A topic is outside the ranking exactly when no entry is its name up to case, and its
  rank is exactly the last position of the ranking that holds its name up to case.
  Nothing is said on the order of the topics outside the ranking.
\<close>

theorem prioritizeWithExams_ranked_first:
  assumes "examDocs \<noteq> []" and "topics \<noteq> []"
    and "fst (priorityCall config be topics examDocs w) = (Some r, None)"
    and "priorityJSON (resp_Content r) = Some jsonStr"
    and "UnmarshalPriority lib jsonStr = Inr priority"
    and "length priority \<le> 999"
  shows "\<exists>out. fst (prioritizeWithExams lib config be topics examDocs w) = Returns out \<and>
           mset out = mset topics \<and> rankedFirst lib priority out \<and>
           (\<forall>t. rankOf lib priority t = None \<longleftrightarrow>
                  ToLower lib (topic_Name t) \<notin> ToLower lib ` set priority) \<and>
           (\<forall>t rk. rankOf lib priority t = Some rk \<longleftrightarrow> lastPosition lib priority t rk)"
  using prioritizeWithExams_sorts[OF assms(1-5)] sortByPriority_mset
    sortByPriority_rankedFirst[OF assms(6)] rankOf_None rankOf_last
  by blast

text \<open>
  A run: three topics, the third of which is the only one the ranking names, and one
  exam document.
\<close>

lemma backendRanks_reply:
  \<open>outcome (backendRanks (calls world0)) =
     Inr \<lparr>resp_Content = ''Here it is: {"priority": ["c"]}'', resp_Model = ''qwen2.5:7b'',
          resp_Done = True\<rparr>\<close>
  by (simp add: backendRanks_def answer_def)

lemma priorityJSON_run:
  \<open>priorityJSON (resp_Content \<lparr>resp_Content = ''Here it is: {"priority": ["c"]}'',
      resp_Model = ''qwen2.5:7b'', resp_Done = True\<rparr>) = Some ''{"priority": ["c"]}''\<close>
  by (simp add: priorityJSON_def Index_def LastIndex_def slice_def)

lemma UnmarshalPriority_run:
  \<open>UnmarshalPriority toyLib ''{"priority": ["c"]}'' = Inr [''c'']\<close>
  by (simp add: toyLib_def)

lemma sortByPriority_run:
  "sortByPriority toyLib [''c''] [mkTopic ''A'', mkTopic ''B'', mkTopic ''C''] =
     [mkTopic ''C'', mkTopic ''B'', mkTopic ''A'']"
  by (simp add: sortByPriority_def sortOuter.simps sortInner.simps priorityOf_def toyLib_def
      asciiLower_def mkTopic_def newTopic_def)

lemma priorityCall_late:
  \<open>fst (priorityCall fastConfig backendRanksLate [mkTopic ''A'', mkTopic ''B'', mkTopic ''C'']
          [mkDoc ''Klausur 2023'' ''Aufgabe 1''] world0) =
     (Some \<lparr>resp_Content = ''Here it is: {"priority": ["c"]}'', resp_Model = ''qwen2.5:7b'',
            resp_Done = True\<rparr>, None)\<close>
  by (simp add: priorityCall_def fastConfig_def priorityOptions_def Generate_def
      generateWithRetry_def modelFor_def acquireOllama_def releaseOllama_def retryLoop.simps
      backendRanksLate_def run_defs Sleep_def emit_def doGenerate_def SetModel_def)

text \<open>The same topics, with the ranking arriving at the second attempt.\<close>

theorem prioritizeWithExams_ranked_first_witness:
  "\<exists>out. fst (prioritizeWithExams toyLib fastConfig backendRanksLate
                [mkTopic ''A'', mkTopic ''B'', mkTopic ''C'']
                [mkDoc ''Klausur 2023'' ''Aufgabe 1''] world0) = Returns out \<and>
         mset out = mset [mkTopic ''A'', mkTopic ''B'', mkTopic ''C''] \<and>
         rankedFirst toyLib [''c''] out"
proof -
  have "[mkDoc ''Klausur 2023'' ''Aufgabe 1''] \<noteq> []"
    and "[mkTopic ''A'', mkTopic ''B'', mkTopic ''C''] \<noteq> []"
    and "length [''c''] \<le> 999"
    by simp_all
  from prioritizeWithExams_ranked_first[where lib=toyLib, OF this(1,2) priorityCall_late
      priorityJSON_run UnmarshalPriority_run this(3)]
  show ?thesis by blast
qed

text \<open>
  Claim C4 as stated: the topics outside the ranking keep their order. In the run, A and
  B are outside the ranking and come out as B, A.
\<close>

theorem unranked_topics_reordered:
  "fst (prioritizeWithExams toyLib fastConfig backendRanks
          [mkTopic ''A'', mkTopic ''B'', mkTopic ''C'']
          [mkDoc ''Klausur 2023'' ''Aufgabe 1''] world0) =
     Returns [mkTopic ''C'', mkTopic ''B'', mkTopic ''A''] \<and>
   \<not> unrankedKeepOrder toyLib [''c''] [mkTopic ''A'', mkTopic ''B'', mkTopic ''C'']
       [mkTopic ''C'', mkTopic ''B'', mkTopic ''A'']"
proof -
  have "[mkDoc ''Klausur 2023'' ''Aufgabe 1''] \<noteq> []"
    and "[mkTopic ''A'', mkTopic ''B'', mkTopic ''C''] \<noteq> []"
    by simp_all
  from prioritizeWithExams_ranked[where be=backendRanks and w=world0 and lib=toyLib
      and config=fastConfig, OF this backendRanks_reply priorityJSON_run UnmarshalPriority_run]
  have "fst (prioritizeWithExams toyLib fastConfig backendRanks
          [mkTopic ''A'', mkTopic ''B'', mkTopic ''C'']
          [mkDoc ''Klausur 2023'' ''Aufgabe 1''] world0) =
     Returns [mkTopic ''C'', mkTopic ''B'', mkTopic ''A'']"
    by (simp add: sortByPriority_run)
  moreover have "\<not> unrankedKeepOrder toyLib [''c''] [mkTopic ''A'', mkTopic ''B'', mkTopic ''C'']
       [mkTopic ''C'', mkTopic ''B'', mkTopic ''A'']"
    by (simp add: unrankedKeepOrder_def rankOf_def toyLib_def asciiLower_def mkTopic_def
        newTopic_def)
  ultimately show ?thesis by simp
qed

text \<open>
  Why the ranking is limited to 999 names: the entry at position 1000 has a rank above
  the value 999 given to topics outside the ranking, so its topic is sorted behind them.
\<close>

lemma priorityMapLoop_append:
  "priorityMapLoop lib (xs @ ys) i m =
     priorityMapLoop lib ys (i + length xs) (priorityMapLoop lib xs i m)"
  by (induction xs arbitrary: i m) auto

lemma priorityMapLoop_replicate:
  "priorityMapLoop lib (replicate n x) i m k =
     (if 0 < n \<and> k = ToLower lib x then Some (i + n - 1) else m k)"
proof (induction n arbitrary: i m)
  case 0
  show ?case by simp
next
  case (Suc n)
  define m' where "m' = m(ToLower lib x \<mapsto> i)"
  have "priorityMapLoop lib (replicate n x) (Suc i) m' k =
          (if 0 < n \<and> k = ToLower lib x then Some (Suc i + n - 1) else m' k)"
    by (rule Suc.IH)
  then show ?case by (auto simp: m'_def)
qed

lemma long_ranking_sorted_behind:
  "sortByPriority toyLib (replicate 1000 ''x'' @ [''b'']) [mkTopic ''B'', mkTopic ''A''] =
     [mkTopic ''A'', mkTopic ''B'']"
proof -
  have l: "ToLower toyLib = asciiLower" by (simp add: toyLib_def)
  have "priorityOf toyLib (priorityMapLoop toyLib (replicate 1000 ''x'' @ [''b'']) 0 Map.empty)
          (mkTopic ''B'') = 1000"
    and "priorityOf toyLib (priorityMapLoop toyLib (replicate 1000 ''x'' @ [''b'']) 0 Map.empty)
          (mkTopic ''A'') = 999"
    by (simp_all add: priorityOf_def priorityMapLoop_append l asciiLower_def mkTopic_def
        newTopic_def priorityMapLoop_replicate)
  then show ?thesis
    by (simp add: sortByPriority_def sortOuter.simps sortInner.simps)
qed

text \<open>A name that the ranking holds twice has the later position as its rank.\<close>

lemma rank_of_repeated_name:
  "rankOf toyLib [''a'', ''b'', ''a''] (mkTopic ''A'') = Some 2"
  by (simp add: rankOf_def toyLib_def asciiLower_def mkTopic_def newTopic_def)

section \<open>Properties of the streaming decoder\<close>

lemma streamLoop_continue:
  "continues (body i) \<Longrightarrow>
   streamLoop body i sent = streamLoop body (Suc i) (sent @ chunksFor (body i))"
  by (subst streamLoop.simps) (cases "body i"; simp)

lemma streamLoop_stop:
  "\<not> continues (body i) \<Longrightarrow> streamLoop body i sent = Some (sent @ chunksFor (body i))"
  by (subst streamLoop.simps) (cases "body i"; simp)

lemma streamLoop_ends:
  "i \<le> n \<Longrightarrow> (\<forall>j. i \<le> j \<and> j < n \<longrightarrow> continues (body j)) \<Longrightarrow> \<not> continues (body n) \<Longrightarrow>
   streamLoop body i sent =
     Some (sent @ concat (map (\<lambda>j. chunksFor (body j)) [i..<n]) @ chunksFor (body n))"
proof (induction "n - i" arbitrary: i sent)
  case 0
  then have "i = n" by simp
  with "0.prems" show ?case by (simp add: streamLoop_stop)
next
  case (Suc d)
  then have lt: "i < n" by simp
  with Suc.prems have c: "continues (body i)" by simp
  have "streamLoop body (Suc i) (sent @ chunksFor (body i)) =
          Some ((sent @ chunksFor (body i)) @
                concat (map (\<lambda>j. chunksFor (body j)) [Suc i..<n]) @ chunksFor (body n))"
    using Suc.hyps(2) Suc.prems lt by (intro Suc.hyps(1)) auto
  then show ?case
    using lt by (simp add: streamLoop_continue[where body=body and i=i, OF c] upt_conv_Cons)
qed

lemma length_concat_singletons:
  "(\<And>j. j < n \<Longrightarrow> length (f j) = 1) \<Longrightarrow> length (concat (map f [0..<n])) = n"
  by (induction n) auto

lemma continues_not_terminal:
  "continues d \<Longrightarrow> c \<in> set (chunksFor d) \<Longrightarrow> \<not> terminal c"
  by (cases d) (auto simp: terminal_def)

lemma stops_terminal:
  "\<not> continues d \<Longrightarrow> d \<noteq> EndOfStream \<Longrightarrow> \<exists>c. chunksFor d = [c] \<and> terminal c"
  by (cases d) (auto simp: terminal_def)

text \<open>
  Claim C9, amended. Let the body end at read \<open>n\<close>: the reads before it are frames
  that are not done, and read \<open>n\<close> is a frame that is done, an error, or the end of the
  stream. Then the loop returns, and what it has sent is one chunk for each of the
  \<open>n\<close> frames before, in their order, none of them done or with an error, followed
  by: the chunk of the frame that is done; or one chunk carrying the error; or nothing,
  when read \<open>n\<close> is the end of the stream.
\<close>

theorem stream_chunks_of_ending_body:
  assumes "endsAt body n"
  shows "\<exists>before. streamChunks body = Some (before @ chunksFor (body n)) \<and>
           before = concat (map (\<lambda>j. chunksFor (body j)) [0..<n]) \<and>
           length before = n \<and>
           list_all (\<lambda>c. \<not> terminal c) before \<and>
           (case body n of
              Frame response done \<Rightarrow>
                chunksFor (body n) =
                  [\<lparr>chunk_Content = response, chunk_Done = True, chunk_Error = None\<rparr>]
            | Broken err \<Rightarrow>
                chunksFor (body n) =
                  [\<lparr>chunk_Content = [], chunk_Done = False, chunk_Error = Some err\<rparr>]
            | EndOfStream \<Rightarrow> chunksFor (body n) = [])"
proof -
  let ?before = "concat (map (\<lambda>j. chunksFor (body j)) [0..<n])"
  from assms have c: "\<forall>j. 0 \<le> j \<and> j < n \<longrightarrow> continues (body j)" and s: "\<not> continues (body n)"
    by (auto simp: endsAt_def)
  have "streamChunks body = Some (?before @ chunksFor (body n))"
    unfolding streamChunks_def using streamLoop_ends[OF _ c s, of "[]"] by simp
  moreover have "list_all (\<lambda>c. \<not> terminal c) ?before"
    using c continues_not_terminal by (auto simp: list_all_iff)
  moreover have "length (chunksFor (body j)) = 1" if "j < n" for j
    using c that by (cases "body j") auto
  then have "length ?before = n"
    by (rule length_concat_singletons)
  moreover have "case body n of
              Frame response done \<Rightarrow>
                chunksFor (body n) =
                  [\<lparr>chunk_Content = response, chunk_Done = True, chunk_Error = None\<rparr>]
            | Broken err \<Rightarrow>
                chunksFor (body n) =
                  [\<lparr>chunk_Content = [], chunk_Done = False, chunk_Error = Some err\<rparr>]
            | EndOfStream \<Rightarrow> chunksFor (body n) = []"
    using s by (cases "body n") auto
  ultimately show ?thesis by blast
qed

text \<open>Bodies of one frame followed by each of the three endings.\<close>

theorem stream_chunks_of_ending_body_witness:
  "endsAt bodyDone 1 \<and> endsAt bodyBroken 1 \<and> endsAt bodyCutShort 1 \<and>
   streamChunks bodyDone =
     Some [\<lparr>chunk_Content = ''Hel'', chunk_Done = False, chunk_Error = None\<rparr>,
           \<lparr>chunk_Content = ''lo'', chunk_Done = True, chunk_Error = None\<rparr>] \<and>
   streamChunks bodyBroken =
     Some [\<lparr>chunk_Content = ''Hel'', chunk_Done = False, chunk_Error = None\<rparr>,
           \<lparr>chunk_Content = [], chunk_Done = False,
            chunk_Error = Some (Failure ''unexpected end of JSON input'')\<rparr>] \<and>
   streamChunks bodyCutShort =
     Some [\<lparr>chunk_Content = ''Hel'', chunk_Done = False, chunk_Error = None\<rparr>]"
proof -
  have e: "endsAt bodyDone 1" "endsAt bodyBroken 1" "endsAt bodyCutShort 1"
    by (simp_all add: endsAt_def bodyDone_def bodyBroken_def bodyCutShort_def)
  from stream_chunks_of_ending_body[OF e(1)] stream_chunks_of_ending_body[OF e(2)]
    stream_chunks_of_ending_body[OF e(3)] e
  show ?thesis
    by (auto simp: bodyDone_def bodyBroken_def bodyCutShort_def)
qed

text \<open>
  Claim C9 as stated: the last chunk is done or carries an error. When the body ends
  before a frame that is done, the loop returns on \<open>io.EOF\<close> without sending
  anything, and the last chunk sent is an ordinary one.
\<close>

theorem stream_cut_short_has_no_terminal_chunk:
  "streamChunks bodyCutShort =
     Some [\<lparr>chunk_Content = ''Hel'', chunk_Done = False, chunk_Error = None\<rparr>] \<and>
   \<not> terminal (last [\<lparr>chunk_Content = ''Hel'', chunk_Done = False, chunk_Error = None\<rparr>])"
  by (simp add: streamChunks_def streamLoop.simps bodyCutShort_def terminal_def)

text \<open>On a body that never ends the loop does not return.\<close>

lemma streamLoop_endless:
  assumes "\<forall>j. continues (body j)"
  shows "streamLoop body i sent = None"
proof (rule ccontr)
  assume "streamLoop body i sent \<noteq> None"
  then obtain out where "streamLoop body i sent = Some out" by auto
  then have "\<exists>j. \<not> continues (body j)"
  proof (induction rule: streamLoop.raw_induct[rotated 1, consumes 1])
    case (1 streamLoop' body i sent out)
    show ?case
    proof (cases "continues (body i)")
      case True
      then obtain response where "body i = Frame response False"
        by (cases "body i") auto
      with 1 show ?thesis by auto
    next
      case False
      then show ?thesis by blast
    qed
  qed
  with assms show False by simp
qed

section \<open>Properties of the pipeline\<close>

subsection \<open>What a call of Generate returns and leaves behind\<close>

lemma retryLoop_result:
  "case fst (retryLoop be p model maxRetries attempt lastErr w) of
     (Some r, err) \<Rightarrow> err = None \<and> (\<exists>n. outcome (be n) = Inr r)
   | (None, err) \<Rightarrow> err \<noteq> None \<or> (err = lastErr \<and> \<not> attempt \<le> maxRetries)"
proof (induction "Suc maxRetries - attempt" arbitrary: attempt lastErr w)
  case 0
  then have "\<not> attempt \<le> maxRetries" by simp
  then show ?case by (simp add: retryLoop_exit)
next
  case (Suc d)
  then have le: "attempt \<le> maxRetries" by simp
  show ?case
  proof (cases "outcome (be (calls w))")
    case (Inr resp)
    from retryLoop_ok[where be=be and w=w and p=p and model=model and lastErr=lastErr, OF le Inr]
    obtain w' where "retryLoop be p model maxRetries attempt lastErr w = ((Some resp, None), w')"
      by blast
    moreover have "\<exists>n. outcome (be n) = Inr resp" using Inr by blast
    ultimately show ?thesis by simp
  next
    case (Inl e)
    show ?thesis
    proof (cases "isCrash e \<or> ctx_Err (be (calls w)) = None")
      case False
      then obtain ce where "\<not> isCrash e" "ctx_Err (be (calls w)) = Some ce" by auto
      from retryLoop_cancelled[where be=be and w=w and p=p and model=model and lastErr=lastErr,
          OF le Inl this]
      show ?thesis by auto
    next
      case True
      from retryLoop_again[where be=be and w=w and p=p and model=model and lastErr=lastErr,
          OF le Inl True]
      obtain w1 where w1: "retryLoop be p model maxRetries attempt lastErr w =
               retryLoop be p model maxRetries (Suc attempt) (Some e) w1"
        by blast
      have "d = Suc maxRetries - Suc attempt" using Suc.hyps(2) by simp
      from Suc.hyps(1)[OF this, where lastErr="Some e" and w=w1] show ?thesis
        unfolding w1 by (auto split: prod.splits option.splits)
    qed
  qed
qed

lemma retryLoop_attempts:
  "attempt \<le> maxRetries \<Longrightarrow>
   calls w < calls (snd (retryLoop be p model maxRetries attempt lastErr w))"
proof -
  assume le: "attempt \<le> maxRetries"
  have mono: "calls w' \<le> calls (snd (retryLoop be p model maxRetries a l w'))" for a l w'
    using retryLoop_effect[of be p model maxRetries a l w'] by auto
  show ?thesis
  proof (cases "outcome (be (calls w))")
    case (Inr resp)
    from retryLoop_ok[where be=be and w=w and p=p and model=model and lastErr=lastErr, OF le Inr]
    show ?thesis by auto
  next
    case (Inl e)
    show ?thesis
    proof (cases "isCrash e \<or> ctx_Err (be (calls w)) = None")
      case False
      then obtain ce where "\<not> isCrash e" "ctx_Err (be (calls w)) = Some ce" by auto
      from retryLoop_cancelled[where be=be and w=w and p=p and model=model and lastErr=lastErr,
          OF le Inl this]
      show ?thesis by auto
    next
      case True
      from retryLoop_again[where be=be and w=w and p=p and model=model and lastErr=lastErr,
          OF le Inl True]
      obtain w1 where w1: "retryLoop be p model maxRetries attempt lastErr w =
               retryLoop be p model maxRetries (Suc attempt) (Some e) w1"
          "calls w1 = Suc (calls w)"
        by blast
      with mono[of w1 "Suc attempt" "Some e"] show ?thesis by simp
    qed
  qed
qed

lemma modelsUsed_append [simp]: "modelsUsed (xs @ ys) = modelsUsed xs @ modelsUsed ys"
  by (induction xs rule: modelsUsed.induct) auto

lemma modelsUsed_attemptEvents [simp]:
  "modelsUsed (attemptEvents be model p attempt n) = [model]"
  by (simp add: world_ops split: sum.splits)

lemma modelsUsed_attempts:
  "modelsUsed (concat (map (\<lambda>j. attemptEvents be model p (f j) (g j)) [0..<k])) =
     replicate k model"
  by (induction k) (simp_all add: replicate_append_same)

lemma Generate_effect:
  "\<exists>k>0. calls (snd (Generate be p options w)) = calls w + k \<and>
         sameProvider w (snd (Generate be p options w)) \<and>
         modelsUsed (newEvents w (snd (Generate be p options w))) =
           replicate k (modelFor options w)"
proof -
  let ?w1 = "acquireOllama w"
  let ?r = "retryLoop be p (modelFor options w) 3 1 None ?w1"
  from retryLoop_effect[of be p "modelFor options w" 3 1 None ?w1] obtain k where
    k: "calls (snd ?r) = calls ?w1 + k" "sameProvider ?w1 (snd ?r)"
       "trace (snd ?r) = trace ?w1 @
          concat (map (\<lambda>j. attemptEvents be (modelFor options w) p (1 + j) (calls ?w1 + j)) [0..<k])"
    by blast
  have "calls ?w1 < calls (snd ?r)" by (rule retryLoop_attempts) simp
  with k(1) have "0 < k" by simp
  moreover have "calls (snd (Generate be p options w)) = calls w + k"
    using k(1) by (simp add: Generate_retryLoop)
  moreover have "sameProvider w (snd (Generate be p options w))"
    using k(2)
    by (simp add: Generate_retryLoop sameProvider_def acquireOllama_def releaseOllama_def emit_def)
  moreover have "modelsUsed (newEvents w (snd (Generate be p options w))) =
           replicate k (modelFor options w)"
    using k(3)
    by (simp add: Generate_retryLoop newEvents_def acquireOllama_def releaseOllama_def emit_def
        modelsUsed_attempts)
  ultimately show ?thesis by blast
qed

lemma Generate_result:
  "case fst (Generate be p options w) of
     (Some r, err) \<Rightarrow> err = None \<and> (\<exists>n. outcome (be n) = Inr r)
   | (None, err) \<Rightarrow> err \<noteq> None"
  using retryLoop_result[where be=be and p=p and model="modelFor options w" and maxRetries=3
      and attempt=1 and lastErr=None and w="acquireOllama w"]
  by (auto simp: Generate_retryLoop split: prod.splits option.splits)

subsection \<open>One document\<close>

lemma analyzeOneDocument_unfold:
  "analyzeOneDocument lib config be doc w =
     (let switch = (FastModel config \<noteq> [] \<and> FastModel config \<noteq> defaultModel w);
          g = Generate be
                (AnalysisPrompt (doc_Name doc)
                   (if length (doc_Content doc) > 4000 then take 4000 (doc_Content doc)
                    else doc_Content doc))
                (Some analysisOptions)
                (if switch then SetModel (FastModel config) w else w)
      in (case snd (fst g) of
            Some e \<Rightarrow> Returns (Inl e)
          | None \<Rightarrow>
              (case fst (fst g) of
                 None \<Rightarrow> Panics
               | Some r \<Rightarrow> Returns (parseTopicsFromResponse lib (resp_Content r))),
          if switch then SetModel (defaultModel w) (snd g) else snd g))"
  unfolding analyzeOneDocument_def Let_def GetCurrentModel_def case_prod_beta
  by (simp split: option.splits)


lemma Generate_not_nil:
  "snd (fst (Generate be p options w)) = None \<Longrightarrow> fst (fst (Generate be p options w)) \<noteq> None"
proof -
  assume a: "snd (fst (Generate be p options w)) = None"
  obtain resp err where f: "fst (Generate be p options w) = (resp, err)"
    by (cases "fst (Generate be p options w)")
  with a have "err = None" by simp
  with Generate_result[of be p options w] f show ?thesis
    by (cases resp) auto
qed

lemma analyzeOneDocument_returns:
  "fst (analyzeOneDocument lib config be doc w) \<noteq> Panics"
proof -
  define g where "g = Generate be
                (AnalysisPrompt (doc_Name doc)
                   (if length (doc_Content doc) > 4000 then take 4000 (doc_Content doc)
                    else doc_Content doc))
                (Some analysisOptions)
                (if FastModel config \<noteq> [] \<and> FastModel config \<noteq> defaultModel w
                 then SetModel (FastModel config) w else w)"
  have u: "fst (analyzeOneDocument lib config be doc w) =
      (case snd (fst g) of
            Some e \<Rightarrow> Returns (Inl e)
          | None \<Rightarrow>
              (case fst (fst g) of
                 None \<Rightarrow> Panics
               | Some r \<Rightarrow> Returns (parseTopicsFromResponse lib (resp_Content r))))"
    by (simp only: analyzeOneDocument_unfold Let_def g_def fst_conv)
  show ?thesis
  proof (cases "snd (fst g)")
    case (Some e)
    with u show ?thesis by simp
  next
    case None
    then have "fst (fst g) \<noteq> None" unfolding g_def by (rule Generate_not_nil)
    then obtain r where "fst (fst g) = Some r" by auto
    with None u show ?thesis by simp
  qed
qed

lemma analyzeLoop_results:
  "fst (analyzeLoop lib config be docs allTopics w) =
     Returns (allTopics @ concat (map topicsOf (analysisResults lib config be docs w)))"
proof (induction docs arbitrary: allTopics w)
  case Nil
  show ?case by simp
next
  case (Cons doc docs)
  obtain res w1 where a: "analyzeOneDocument lib config be doc w = (res, w1)"
    by (cases "analyzeOneDocument lib config be doc w")
  with analyzeOneDocument_returns[of lib config be doc w] have "res \<noteq> Panics" by simp
  then obtain v where res: "res = Returns v" by (cases res) auto
  show ?case
  proof (cases v)
    case (Inl err)
    with a res Cons.IH[of allTopics w1] show ?thesis by simp
  next
    case (Inr topics)
    with a res Cons.IH[of "allTopics @ topics" w1] show ?thesis by simp
  qed
qed

lemma analyzeDocumentsSequentially_results:
  "fst (analyzeDocumentsSequentially lib config be docs w) =
     Returns (concat (map topicsOf (analysisResults lib config be docs w)))"
  by (simp add: analyzeDocumentsSequentially_def analyzeLoop_results)


subsection \<open>The prioritization call\<close>

lemma prioritizeWithExams_unfold:
  "prioritizeWithExams lib config be topics examDocs w =
     (if examDocs = [] \<or> topics = [] then (Returns topics, w)
      else
        (let switch = (FastModel config \<noteq> []);
             g = Generate be
                   (PriorityPrompt (Join (map topic_Name topics) '', '')
                      (examContentLoop examDocs []))
                   (Some priorityOptions)
                   (if switch then SetModel (FastModel config) w else w)
         in (case snd (fst g) of
               Some e \<Rightarrow> Returns topics
             | None \<Rightarrow>
                 (case fst (fst g) of
                    None \<Rightarrow> Panics
                  | Some r \<Rightarrow>
                      (case priorityJSON (resp_Content r) of
                         None \<Rightarrow> Panics
                       | Some jsonStr \<Rightarrow>
                           (case UnmarshalPriority lib jsonStr of
                              Inl e \<Rightarrow> Returns topics
                            | Inr priority \<Rightarrow> Returns (sortByPriority lib priority topics)))),
             if switch then SetModel (defaultModel w) (snd g) else snd g)))"
  unfolding prioritizeWithExams_def Let_def GetCurrentModel_def case_prod_beta
  by (simp split: option.splits sum.splits)

lemma prioritizeWithExams_returns:
  assumes "sliceable be"
  shows "\<exists>out. fst (prioritizeWithExams lib config be topics examDocs w) = Returns out \<and>
           mset out = mset topics"
proof (cases "examDocs = [] \<or> topics = []")
  case True
  then show ?thesis by (simp only: prioritizeWithExams_unfold if_True fst_conv) blast
next
  case False
  define g where "g = Generate be
                   (PriorityPrompt (Join (map topic_Name topics) '', '')
                      (examContentLoop examDocs []))
                   (Some priorityOptions)
                   (if FastModel config \<noteq> [] then SetModel (FastModel config) w else w)"
  have res: "case fst g of
          (Some r, err) \<Rightarrow> err = None \<and> (\<exists>n. outcome (be n) = Inr r)
        | (None, err) \<Rightarrow> err \<noteq> None"
    unfolding g_def by (rule Generate_result)
  obtain resp err where fg: "fst g = (resp, err)" by (cases "fst g")
  have "fst (prioritizeWithExams lib config be topics examDocs w) =
      (case snd (fst g) of
         Some e \<Rightarrow> Returns topics
       | None \<Rightarrow>
           (case fst (fst g) of
              None \<Rightarrow> Panics
            | Some r \<Rightarrow>
                (case priorityJSON (resp_Content r) of
                   None \<Rightarrow> Panics
                 | Some jsonStr \<Rightarrow>
                     (case UnmarshalPriority lib jsonStr of
                        Inl e \<Rightarrow> Returns topics
                      | Inr priority \<Rightarrow> Returns (sortByPriority lib priority topics)))))"
    using False by (simp only: prioritizeWithExams_unfold Let_def g_def if_False fst_conv)
  then have unfold: "fst (prioritizeWithExams lib config be topics examDocs w) =
      (case err of
         Some e \<Rightarrow> Returns topics
       | None \<Rightarrow>
           (case resp of
              None \<Rightarrow> Panics
            | Some r \<Rightarrow>
                (case priorityJSON (resp_Content r) of
                   None \<Rightarrow> Panics
                 | Some jsonStr \<Rightarrow>
                     (case UnmarshalPriority lib jsonStr of
                        Inl e \<Rightarrow> Returns topics
                      | Inr priority \<Rightarrow> Returns (sortByPriority lib priority topics)))))"
    by (simp only: fg fst_conv snd_conv)
  show ?thesis
  proof (cases err)
    case (Some e)
    with unfold show ?thesis by simp
  next
    case None
    with res fg obtain r n where r: "resp = Some r" "outcome (be n) = Inr r"
      by (cases resp) auto
    from assms have "case outcome (be n) of
             Inr r \<Rightarrow> priorityJSON (resp_Content r) \<noteq> None
           | Inl err \<Rightarrow> True"
      unfolding sliceable_def by (rule spec)
    with r(2) have "priorityJSON (resp_Content r) \<noteq> None" by simp
    then obtain jsonStr where j: "priorityJSON (resp_Content r) = Some jsonStr" by auto
    show ?thesis
      using unfold None r(1) j
      by (cases "UnmarshalPriority lib jsonStr") (simp_all add: sortByPriority_mset)
  qed
qed


subsection \<open>The entry point\<close>

lemma prioritizeWithExams_result:
  "case fst (prioritizeWithExams lib config be topics examDocs w) of
     Panics \<Rightarrow> True
   | Returns out \<Rightarrow> mset out = mset topics"
proof (cases "examDocs = [] \<or> topics = []")
  case True
  then have "fst (prioritizeWithExams lib config be topics examDocs w) = Returns topics"
    by (simp only: prioritizeWithExams_unfold if_True fst_conv)
  then show ?thesis by simp
next
  case False
  define g where "g = Generate be
                   (PriorityPrompt (Join (map topic_Name topics) '', '')
                      (examContentLoop examDocs []))
                   (Some priorityOptions)
                   (if FastModel config \<noteq> [] then SetModel (FastModel config) w else w)"
  have u: "fst (prioritizeWithExams lib config be topics examDocs w) =
      (case snd (fst g) of
         Some e \<Rightarrow> Returns topics
       | None \<Rightarrow>
           (case fst (fst g) of
              None \<Rightarrow> Panics
            | Some r \<Rightarrow>
                (case priorityJSON (resp_Content r) of
                   None \<Rightarrow> Panics
                 | Some jsonStr \<Rightarrow>
                     (case UnmarshalPriority lib jsonStr of
                        Inl e \<Rightarrow> Returns topics
                      | Inr priority \<Rightarrow> Returns (sortByPriority lib priority topics)))))"
    using False by (simp only: prioritizeWithExams_unfold Let_def g_def if_False fst_conv)
  show ?thesis
    unfolding u
    by (simp add: sortByPriority_mset split: option.splits sum.splits)
qed

lemma AnalyzeDocumentsParallel_result:
  "case fst (AnalyzeDocumentsParallel lib config be documents w) of
     Panics \<Rightarrow> True
   | Returns (ts, err) \<Rightarrow>
       err = None \<and>
       (\<exists>prioritized.
          ts = deduplicateTopics lib prioritized \<and>
          mset prioritized =
            mset (concat (map topicsOf
              (analysisResults lib config be
                 (fst (categorizeDocuments lib (deduplicateDocuments documents))) w))))"
proof -
  obtain mainDocs examDocs where
    c: "categorizeDocuments lib (deduplicateDocuments documents) = (mainDocs, examDocs)"
    by (cases "categorizeDocuments lib (deduplicateDocuments documents)")
  define mainTopics where
    "mainTopics = concat (map topicsOf (analysisResults lib config be mainDocs w))"
  obtain w1 where
    a: "analyzeDocumentsSequentially lib config be mainDocs w = (Returns mainTopics, w1)"
    using analyzeDocumentsSequentially_results[of lib config be mainDocs w]
    unfolding mainTopics_def
    by (cases "analyzeDocumentsSequentially lib config be mainDocs w") auto
  define second where "second = (if examDocs \<noteq> [] \<and> mainTopics \<noteq> []
                 then prioritizeWithExams lib config be mainTopics examDocs w1
                 else (Returns mainTopics, w1))"
  have s: "case fst second of Panics \<Rightarrow> True | Returns out \<Rightarrow> mset out = mset mainTopics"
    using prioritizeWithExams_result[where lib=lib and config=config and be=be
        and topics=mainTopics and examDocs=examDocs and w=w1]
    unfolding second_def by simp
  obtain res w2 where sw: "second = (res, w2)" by (cases second)
  have "fst (AnalyzeDocumentsParallel lib config be documents w) =
          (case res of Panics \<Rightarrow> Panics
           | Returns prioritized \<Rightarrow> Returns (deduplicateTopics lib prioritized, None))"
    unfolding AnalyzeDocumentsParallel_def Let_def c using a sw
    by (cases res) (simp_all add: second_def[symmetric])
  with s sw c show ?thesis
    unfolding mainTopics_def by (cases res) auto
qed

lemma AnalyzeDocumentsParallel_returns_when:
  assumes "snd (categorizeDocuments lib (deduplicateDocuments documents)) = [] \<or>
           concat (map topicsOf
              (analysisResults lib config be
                 (fst (categorizeDocuments lib (deduplicateDocuments documents))) w)) = [] \<or>
           sliceable be"
  shows "\<exists>ts. fst (AnalyzeDocumentsParallel lib config be documents w) = Returns (ts, None)"
proof -
  obtain mainDocs examDocs where
    c: "categorizeDocuments lib (deduplicateDocuments documents) = (mainDocs, examDocs)"
    by (cases "categorizeDocuments lib (deduplicateDocuments documents)")
  define mainTopics where
    "mainTopics = concat (map topicsOf (analysisResults lib config be mainDocs w))"
  obtain w1 where
    a: "analyzeDocumentsSequentially lib config be mainDocs w = (Returns mainTopics, w1)"
    using analyzeDocumentsSequentially_results[of lib config be mainDocs w]
    unfolding mainTopics_def
    by (cases "analyzeDocumentsSequentially lib config be mainDocs w") auto
  define second where "second = (if examDocs \<noteq> [] \<and> mainTopics \<noteq> []
                 then prioritizeWithExams lib config be mainTopics examDocs w1
                 else (Returns mainTopics, w1))"
  from assms c have "examDocs = [] \<or> mainTopics = [] \<or> sliceable be"
    by (simp add: mainTopics_def)
  then have "\<exists>out. fst second = Returns out"
  proof (elim disjE)
    assume "sliceable be"
    from prioritizeWithExams_returns[OF this, of lib config mainTopics examDocs w1]
    show ?thesis unfolding second_def by auto
  qed (simp_all add: second_def)
  then obtain out w2 where sw: "second = (Returns out, w2)" by (metis prod.collapse)
  have "fst (AnalyzeDocumentsParallel lib config be documents w) =
          Returns (deduplicateTopics lib out, None)"
    unfolding AnalyzeDocumentsParallel_def Let_def c using a sw
    by (simp add: second_def[symmetric])
  then show ?thesis by blast
qed

text \<open>
  Claim C6, amended. The entry point has no path that returns an error. Whenever it
  returns, the error is nil and the list is the deduplication of a rearrangement of the
  topics that the analyses of the primary documents returned, taken one document after
  the other, a document whose analysis failed (retries used up, context cancelled,
  answer not decodable) adding nothing. It does return when there is no exam document,
  when the analyses yield no topic, or when no answer of the backend breaks the slice of
  the prioritization. When the analyses yield no topic, it returns the empty list and a
  nil error.
\<close>

theorem AnalyzeDocumentsParallel_best_effort:
  "(\<forall>ts err. fst (AnalyzeDocumentsParallel lib config be documents w) = Returns (ts, err) \<longrightarrow>
      err = None \<and>
      (\<exists>prioritized.
         ts = deduplicateTopics lib prioritized \<and>
         mset prioritized =
           mset (concat (map topicsOf
             (analysisResults lib config be
                (fst (categorizeDocuments lib (deduplicateDocuments documents))) w))))) \<and>
   (snd (categorizeDocuments lib (deduplicateDocuments documents)) = [] \<or>
    concat (map topicsOf
      (analysisResults lib config be
         (fst (categorizeDocuments lib (deduplicateDocuments documents))) w)) = [] \<or>
    sliceable be \<longrightarrow>
      (\<exists>ts. fst (AnalyzeDocumentsParallel lib config be documents w) = Returns (ts, None))) \<and>
   (concat (map topicsOf
      (analysisResults lib config be
         (fst (categorizeDocuments lib (deduplicateDocuments documents))) w)) = [] \<longrightarrow>
      fst (AnalyzeDocumentsParallel lib config be documents w) = Returns ([], None))"
proof (intro conjI allI impI)
  fix ts err
  assume r: "fst (AnalyzeDocumentsParallel lib config be documents w) = Returns (ts, err)"
  from AnalyzeDocumentsParallel_result[where lib=lib and config=config and be=be
      and documents=documents and w=w]
  show "err = None" and "\<exists>prioritized.
         ts = deduplicateTopics lib prioritized \<and>
         mset prioritized =
           mset (concat (map topicsOf
             (analysisResults lib config be
                (fst (categorizeDocuments lib (deduplicateDocuments documents))) w)))"
    unfolding r by simp_all
next
  assume "snd (categorizeDocuments lib (deduplicateDocuments documents)) = [] \<or>
    concat (map topicsOf
      (analysisResults lib config be
         (fst (categorizeDocuments lib (deduplicateDocuments documents))) w)) = [] \<or>
    sliceable be"
  then show "\<exists>ts. fst (AnalyzeDocumentsParallel lib config be documents w) = Returns (ts, None)"
    by (rule AnalyzeDocumentsParallel_returns_when)
next
  assume e: "concat (map topicsOf
      (analysisResults lib config be
         (fst (categorizeDocuments lib (deduplicateDocuments documents))) w)) = []"
  then obtain ts where
    r: "fst (AnalyzeDocumentsParallel lib config be documents w) = Returns (ts, None)"
    using AnalyzeDocumentsParallel_returns_when[where lib=lib and config=config and be=be
        and documents=documents and w=w] by blast
  from AnalyzeDocumentsParallel_result[where lib=lib and config=config and be=be
      and documents=documents and w=w]
  obtain prioritized where "ts = deduplicateTopics lib prioritized" "mset prioritized = {#}"
    unfolding r e by auto
  then have "ts = []" by (simp add: deduplicateTopics_def)
  with r show "fst (AnalyzeDocumentsParallel lib config be documents w) = Returns ([], None)"
    by simp
qed

lemma sliceable_backendRanks: "sliceable backendRanks"
  by (simp add: sliceable_def backendRanks_def answer_def priorityJSON_def Index_def
      LastIndex_def slice_def)

lemmas pipeline_run =
  AnalyzeDocumentsParallel_def deduplicateDocuments_def deduplicateTopics_def
  analyzeDocumentsSequentially_def analyzeOneDocument_def prioritizeWithExams_def
  isExamName_def mkDoc_def toyLib_def asciiLower_def fastConfig_def
  Generate_def generateWithRetry_def modelFor_def analysisOptions_def acquireOllama_def
  releaseOllama_def retryLoop.simps run_defs Sleep_def emit_def doGenerate_def
  SetModel_def GetCurrentModel_def

lemma cancelled_midway_run:
  "fst (AnalyzeDocumentsParallel toyLib fastConfig backendCancelledMidway
          [mkDoc ''Mengen.pdf'' ''Mengen und Abbildungen'',
           mkDoc ''Analysis.pdf'' ''Folgen und Reihen''] world0) =
     Returns ([newTopic \<lparr>raw_Name = ''Sets'', raw_Description = [], raw_Difficulty = 0,
                         raw_EstMinutes = 0\<rparr>], None)"
  by (simp add: pipeline_run backendCancelledMidway_def parseTopicsFromResponse_def
      extractJSON_def Index_def LastIndex_def slice_def newTopic_def Let_def)

text \<open>
  Two primary documents, the context being cancelled after the analysis of the first:
  the topic of the first is returned, with a nil error. And a study script with an exam,
  at the backend that answers every call with a ranking.
\<close>

theorem AnalyzeDocumentsParallel_best_effort_witness:
  "fst (AnalyzeDocumentsParallel toyLib fastConfig backendCancelledMidway
          [mkDoc ''Mengen.pdf'' ''Mengen und Abbildungen'',
           mkDoc ''Analysis.pdf'' ''Folgen und Reihen''] world0) =
     Returns ([newTopic \<lparr>raw_Name = ''Sets'', raw_Description = [], raw_Difficulty = 0,
                         raw_EstMinutes = 0\<rparr>], None) \<and>
   (\<exists>prioritized.
      [newTopic \<lparr>raw_Name = ''Sets'', raw_Description = [], raw_Difficulty = 0,
                 raw_EstMinutes = 0\<rparr>] = deduplicateTopics toyLib prioritized) \<and>
   (\<exists>ts. fst (AnalyzeDocumentsParallel toyLib fastConfig backendRanks
            [mkDoc ''Analysis.pdf'' ''Folgen und Reihen'', mkDoc ''Klausur 2023'' ''Aufgabe 1'']
            world0) = Returns (ts, None))"
proof -
  note t1 = AnalyzeDocumentsParallel_best_effort[of toyLib fastConfig backendCancelledMidway
      "[mkDoc ''Mengen.pdf'' ''Mengen und Abbildungen'',
        mkDoc ''Analysis.pdf'' ''Folgen und Reihen'']" world0,
      THEN conjunct1, rule_format, OF cancelled_midway_run]
  note t2 = AnalyzeDocumentsParallel_best_effort[of toyLib fastConfig backendRanks
      "[mkDoc ''Analysis.pdf'' ''Folgen und Reihen'', mkDoc ''Klausur 2023'' ''Aufgabe 1'']"
      world0, THEN conjunct2, THEN conjunct1]
  from t1 have "\<exists>prioritized.
      [newTopic \<lparr>raw_Name = ''Sets'', raw_Description = [], raw_Difficulty = 0,
                 raw_EstMinutes = 0\<rparr>] = deduplicateTopics toyLib prioritized"
    by blast
  moreover from t2 sliceable_backendRanks
  have "\<exists>ts. fst (AnalyzeDocumentsParallel toyLib fastConfig backendRanks
            [mkDoc ''Analysis.pdf'' ''Folgen und Reihen'', mkDoc ''Klausur 2023'' ''Aufgabe 1'']
            world0) = Returns (ts, None)"
    by blast
  ultimately show ?thesis using cancelled_midway_run by blast
qed

text \<open>
  Claim C6 as stated: a hard error when no document was usable or the operation was
  cancelled. With no document at all, and with one document whose analysis fails because
  the context is cancelled, the entry point returns the empty list and a nil error.
\<close>

theorem no_error_without_usable_documents:
  "fst (AnalyzeDocumentsParallel toyLib fastConfig backendCancelled [] world0) =
     Returns ([], None) \<and>
   fst (AnalyzeDocumentsParallel toyLib fastConfig backendCancelled
          [mkDoc ''Analysis.pdf'' ''Folgen und Reihen''] world0) =
     Returns ([], None)"
  by (simp add: pipeline_run backendCancelled_def)


text \<open>
  The case the theorem above leaves out: an answer whose first opening brace lies more
  than one byte behind its last closing brace makes the slice of the prioritization
  panic, and the entry point does not return.
\<close>

lemma prioritizeWithExams_panics:
  "priorityJSON ''} {'' = None \<and>
   fst (prioritizeWithExams toyLib fastConfig backendBraces [mkTopic ''A'']
          [mkDoc ''Klausur 2023'' ''Aufgabe 1''] world0) = Panics"
  by (simp add: pipeline_run backendBraces_def priorityOptions_def priorityJSON_def Index_def
      LastIndex_def slice_def Let_def)

subsection \<open>The model switch\<close>

lemma switched_call:
  assumes "fast \<noteq> []" and "defaultModel w \<noteq> []" and "opt_Model opts = []"
  shows "sameProvider w (SetModel (defaultModel w) (snd (Generate be p (Some opts) (SetModel fast w)))) \<and>
         (\<exists>k>0. modelsUsed (newEvents w
                  (SetModel (defaultModel w) (snd (Generate be p (Some opts) (SetModel fast w))))) =
                replicate k fast)"
proof -
  define w1 where "w1 = SetModel fast w"
  define w2 where "w2 = snd (Generate be p (Some opts) w1)"
  have w1: "defaultModel w1 = fast" "baseURL w1 = baseURL w" "trace w1 = trace w"
    using assms(1) by (simp_all add: w1_def SetModel_def)
  have m: "modelFor (Some opts) w1 = fast"
    using assms(3) w1(1) by (simp add: modelFor_def)
  from Generate_effect[of be p "Some opts" w1] obtain k where
    k: "0 < k" "sameProvider w1 w2" "modelsUsed (newEvents w1 w2) = replicate k fast"
    unfolding w2_def m by blast
  have "sameProvider w (SetModel (defaultModel w) w2)"
    using k(2) w1(2) assms(2) by (simp add: sameProvider_def SetModel_def)
  moreover have "newEvents w (SetModel (defaultModel w) w2) = newEvents w1 w2"
    using w1(3) by (simp add: newEvents_def)
  ultimately show ?thesis
    using k(1,3) unfolding w2_def w1_def by auto
qed

text \<open>
  Claim C10, amended. Let a fast model be configured that is not the provider's current
  model, and let the current model's name not be empty. Then the analysis of a document
  and the prioritization leave \<open>baseURL\<close> and \<open>defaultModel\<close> as they found them,
  and every call of \<open>doGenerate\<close> they make names the fast model; the analysis makes
  at least one.
\<close>

theorem fast_model_switched_and_restored:
  assumes "FastModel config \<noteq> []" and "FastModel config \<noteq> defaultModel w"
    and "defaultModel w \<noteq> []"
  shows "sameProvider w (snd (analyzeOneDocument lib config be doc w)) \<and>
         (\<exists>k>0. modelsUsed (newEvents w (snd (analyzeOneDocument lib config be doc w))) =
                  replicate k (FastModel config)) \<and>
         sameProvider w (snd (prioritizeWithExams lib config be topics examDocs w)) \<and>
         (\<exists>k. modelsUsed (newEvents w (snd (prioritizeWithExams lib config be topics examDocs w))) =
                replicate k (FastModel config))"
proof -
  have o1: "opt_Model analysisOptions = []" and o2: "opt_Model priorityOptions = []"
    by (simp_all add: analysisOptions_def priorityOptions_def)
  have a: "snd (analyzeOneDocument lib config be doc w) =
             SetModel (defaultModel w)
               (snd (Generate be
                  (AnalysisPrompt (doc_Name doc)
                     (if length (doc_Content doc) > 4000 then take 4000 (doc_Content doc)
                      else doc_Content doc))
                  (Some analysisOptions) (SetModel (FastModel config) w)))"
    using assms(1,2) by (simp only: analyzeOneDocument_unfold Let_def snd_conv simp_thms if_True)
  have one: "sameProvider w (snd (analyzeOneDocument lib config be doc w)) \<and>
         (\<exists>k>0. modelsUsed (newEvents w (snd (analyzeOneDocument lib config be doc w))) =
                  replicate k (FastModel config))"
    unfolding a by (rule switched_call[OF assms(1,3) o1])
  have two: "sameProvider w (snd (prioritizeWithExams lib config be topics examDocs w)) \<and>
         (\<exists>k. modelsUsed (newEvents w (snd (prioritizeWithExams lib config be topics examDocs w))) =
                replicate k (FastModel config))"
  proof (cases "examDocs = [] \<or> topics = []")
    case True
    then have "snd (prioritizeWithExams lib config be topics examDocs w) = w"
      by (simp only: prioritizeWithExams_unfold if_True snd_conv)
    then show ?thesis by (simp add: sameProvider_def newEvents_def)
  next
    case False
    then have p: "snd (prioritizeWithExams lib config be topics examDocs w) =
             SetModel (defaultModel w)
               (snd (Generate be
                  (PriorityPrompt (Join (map topic_Name topics) '', '')
                     (examContentLoop examDocs []))
                  (Some priorityOptions) (SetModel (FastModel config) w)))"
      using assms(1)
      by (simp only: prioritizeWithExams_unfold Let_def snd_conv simp_thms if_True if_False)
    from switched_call[OF assms(1,3) o2] show ?thesis unfolding p by blast
  qed
  from one two show ?thesis by blast
qed

text \<open>The provider as it starts, with the fast model of the configuration.\<close>

theorem fast_model_switched_and_restored_witness:
  "sameProvider world0
     (snd (analyzeOneDocument toyLib fastConfig backendRanks
             (mkDoc ''Analysis.pdf'' ''Folgen und Reihen'') world0)) \<and>
   sameProvider world0
     (snd (prioritizeWithExams toyLib fastConfig backendRanks [mkTopic ''A'']
             [mkDoc ''Klausur 2023'' ''Aufgabe 1''] world0))"
proof -
  have "FastModel fastConfig \<noteq> []" and "FastModel fastConfig \<noteq> defaultModel world0"
    and "defaultModel world0 \<noteq> []"
    by (simp_all add: fastConfig_def world0_def)
  from fast_model_switched_and_restored[OF this] show ?thesis by blast
qed

text \<open>
  Claim C10 as stated, for a provider whose current model name is empty: \<open>SetModel\<close>
  ignores the empty name, so the deferred call does not put it back.
\<close>

theorem empty_model_name_not_restored:
  "defaultModel (world0\<lparr>defaultModel := []\<rparr>) = [] \<and>
   defaultModel (snd (analyzeOneDocument toyLib fastConfig backendDown
                        (mkDoc ''Analysis.pdf'' ''Folgen und Reihen'')
                        (world0\<lparr>defaultModel := []\<rparr>))) = ''llama3.2:3b''"
  by (simp add: pipeline_run backendDown_def Let_def)

section \<open>Properties of the admission gate\<close>

text \<open>
  Claim C1. The claim asks that streaming and chat calls pass through the gate too, so
  that no two requests are in flight at once. In the run below one caller is in
  \<open>Generate\<close>, holds the slot and has its request in flight, when a caller of
  \<open>Chat\<close> sends its own: two requests are in flight. The same holds with
  \<open>GenerateStream\<close> in place of \<open>Chat\<close>.
\<close>

theorem chat_bypasses_gate:
  "run (start [GenerateActions 1, ChatActions]) [0, 0, 1] =
     Some \<lparr>slot = 1, inFlight = 2, callers = [[RequestEnds, Release], [RequestEnds]]\<rparr> \<and>
   run (start [GenerateActions 1, GenerateStreamActions]) [0, 0, 1] =
     Some \<lparr>slot = 1, inFlight = 2, callers = [[RequestEnds, Release], [RequestEnds]]\<rparr>"
  by (simp add: start_def step_def GenerateActions_def ChatActions_def GenerateStreamActions_def)

text \<open>
  Among callers of \<open>Generate\<close> alone the gate does what the claim says: whatever
  the schedule, at most one request is in flight.
\<close>

lemma afterAcquire_GenerateActions:
  "afterAcquire (concat (replicate n [RequestBegins, RequestEnds]) @ [Release])"
  by (induction n) auto

lemma generating_GenerateActions: "generating (GenerateActions n)"
  by (simp add: generating_def GenerateActions_def afterAcquire_GenerateActions)

lemma not_holding_GenerateActions: "\<not> holding (GenerateActions n)"
  by (simp add: holding_def GenerateActions_def)

lemma not_flying_GenerateActions: "\<not> flying (GenerateActions n)"
  by (simp add: flying_def GenerateActions_def)

lemma gateInvariant_start:
  assumes "\<forall>p \<in> set cs. \<exists>n. p = GenerateActions n"
  shows "gateInvariant (start cs)"
proof -
  have "list_all generating cs"
    using assms generating_GenerateActions by (auto simp: list_all_iff)
  moreover have "filter holding cs = []"
    using assms not_holding_GenerateActions by (auto simp: filter_empty_conv)
  moreover have "filter flying cs = []"
    using assms not_flying_GenerateActions by (auto simp: filter_empty_conv)
  ultimately show ?thesis by (simp add: gateInvariant_def start_def)
qed

lemma count_update:
  "i < length xs \<Longrightarrow>
   length (filter P (xs[i := y])) + (if P (xs ! i) then 1 else 0) =
   length (filter P xs) + (if P y then 1 else 0)"
proof (induction xs arbitrary: i)
  case Nil
  then show ?case by simp
next
  case (Cons x xs)
  show ?case
  proof (cases i)
    case 0
    then show ?thesis by simp
  next
    case (Suc j)
    with Cons.prems have "j < length xs" by simp
    from Cons.IH[OF this] Suc show ?thesis by simp
  qed
qed

lemma flying_le_holding: "length (filter flying xs) \<le> length (filter holding xs)"
proof (induction xs)
  case Nil
  show ?case by simp
next
  case (Cons x xs)
  have "flying x \<Longrightarrow> holding x"
    by (auto simp: flying_def holding_def split: list.splits)
  with Cons show ?case by auto
qed

lemma afterAcquire_cases:
  "afterAcquire prog \<Longrightarrow>
   prog = [Release] \<or> (\<exists>rest. prog = RequestBegins # RequestEnds # rest \<and> afterAcquire rest)"
  by (induction prog rule: afterAcquire.induct) auto

lemma gateInvariant_step:
  assumes "gateInvariant s" and "step s i = Some s'"
  shows "gateInvariant s'"
proof -
  from assms(2) have i: "i < length (callers s)" by (auto simp: step_def split: if_splits)
  from assms(2) i obtain a rest where p: "callers s ! i = a # rest"
    by (cases "callers s ! i") (auto simp: step_def)
  from assms(1) i have g: "generating (a # rest)"
    unfolding gateInvariant_def p[symmetric] by (simp add: list_all_length)
  from assms(1) have all: "list_all generating (callers s)"
    and sl: "slot s = length (filter holding (callers s))"
    and fl: "inFlight s = length (filter flying (callers s))" and cap: "slot s \<le> 1"
    by (simp_all add: gateInvariant_def)
  define cs' where "cs' = (callers s)[i := rest]"
  have upd: "list_all generating cs'" if "generating rest"
    using all that set_update_subset_insert[of "callers s" i rest]
    by (auto simp: list_all_iff cs'_def)
  have cu_h: "length (filter holding cs') + (if holding (a # rest) then 1 else 0) =
              length (filter holding (callers s)) + (if holding rest then 1 else 0)"
    using count_update[OF i, of holding rest] by (simp add: p cs'_def)
  have cu_f: "length (filter flying cs') + (if flying (a # rest) then 1 else 0) =
              length (filter flying (callers s)) + (if flying rest then 1 else 0)"
    using count_update[OF i, of flying rest] by (simp add: p cs'_def)
  show ?thesis
  proof (cases a)
    case Acquire
    with g have aa: "afterAcquire rest" by (simp add: generating_def)
    from assms(2) i p Acquire have free: "slot s < 1"
      and s': "s' = s\<lparr>slot := slot s + 1, callers := cs'\<rparr>"
      by (auto simp: step_def cs'_def split: if_splits)
    from afterAcquire_cases[OF aa] have r: "generating rest" "holding rest" "\<not> flying rest"
      using aa by (auto simp: generating_def holding_def flying_def)
    have o: "\<not> holding (a # rest)" "\<not> flying (a # rest)"
      using Acquire by (simp_all add: holding_def flying_def)
    from cu_h cu_f r o have "length (filter holding cs') = slot s + 1"
      and "length (filter flying cs') = inFlight s"
      using sl fl by simp_all
    with upd[OF r(1)] free show ?thesis by (simp add: gateInvariant_def s')
  next
    case Release
    with g have "rest = []" by (auto simp: generating_def dest: afterAcquire_cases)
    then have r: "generating rest" "\<not> holding rest" "\<not> flying rest"
      by (simp_all add: generating_def holding_def flying_def)
    have o: "holding (a # rest)" "\<not> flying (a # rest)"
      using Release by (simp_all add: holding_def flying_def)
    from assms(2) i p Release have
      s': "s' = s\<lparr>slot := slot s - 1, callers := cs'\<rparr>"
      by (auto simp: step_def cs'_def split: if_splits)
    from cu_h cu_f r o have "length (filter holding cs') = slot s - 1"
      and "length (filter flying cs') = inFlight s"
      using sl fl by simp_all
    with upd[OF r(1)] cap show ?thesis by (simp add: gateInvariant_def s')
  next
    case RequestBegins
    with g have "afterAcquire (RequestBegins # rest)" by (simp add: generating_def)
    from afterAcquire_cases[OF this] obtain rest' where
      rest: "rest = RequestEnds # rest'" "afterAcquire rest'" by auto
    then have r: "generating rest" "holding rest" "flying rest"
      by (simp_all add: generating_def holding_def flying_def)
    have o: "holding (a # rest)" "\<not> flying (a # rest)"
      using RequestBegins by (simp_all add: holding_def flying_def)
    from assms(2) i p RequestBegins have
      s': "s' = s\<lparr>inFlight := inFlight s + 1, callers := cs'\<rparr>"
      by (auto simp: step_def cs'_def)
    from cu_h cu_f r o have "length (filter holding cs') = slot s"
      and "length (filter flying cs') = inFlight s + 1"
      using sl fl by simp_all
    with upd[OF r(1)] cap show ?thesis by (simp add: gateInvariant_def s')
  next
    case RequestEnds
    with g have aa: "afterAcquire rest" by (simp add: generating_def)
    from afterAcquire_cases[OF aa] have r: "generating rest" "holding rest" "\<not> flying rest"
      using aa by (auto simp: generating_def holding_def flying_def)
    have o: "holding (a # rest)" "flying (a # rest)"
      using RequestEnds by (simp_all add: holding_def flying_def)
    from assms(2) i p RequestEnds have
      s': "s' = s\<lparr>inFlight := inFlight s - 1, callers := cs'\<rparr>"
      by (auto simp: step_def cs'_def)
    from cu_h cu_f r o have "length (filter holding cs') = slot s"
      and "length (filter flying cs') = inFlight s - 1"
      using sl fl by simp_all
    with upd[OF r(1)] cap show ?thesis by (simp add: gateInvariant_def s')
  qed
qed

lemma gateInvariant_run:
  "gateInvariant s \<Longrightarrow> run s schedule = Some s' \<Longrightarrow> gateInvariant s'"
proof (induction schedule arbitrary: s)
  case Nil
  then show ?case by simp
next
  case (Cons i schedule)
  then obtain s1 where s1: "step s i = Some s1" "run s1 schedule = Some s'"
    by (auto split: option.splits)
  from Cons.IH[OF gateInvariant_step[OF Cons.prems(1) s1(1)] s1(2)] show ?case .
qed

lemma gate_serializes_Generate:
  assumes "\<forall>p \<in> set cs. \<exists>n. p = GenerateActions n" and "run (start cs) schedule = Some s"
  shows "inFlight s \<le> 1"
proof -
  have "gateInvariant s"
    using gateInvariant_run[OF gateInvariant_start[OF assms(1)] assms(2)] .
  then show ?thesis
    using flying_le_holding[of "callers s"] by (simp add: gateInvariant_def)
qed

end
